theory Spec2Isabelle
  imports Complex_Main "HOL-Library.Multiset" "HOL-Library.Sublist"
begin

section \<open>Data model\<close>

text \<open>
  The package \<open>model\<close> is not among the sources; the fields below are the ones the
  service and the repository read and write: \<open>GetShippingOrders\<close> selects
  \<open>order_id\<close>, \<open>weight\<close> and \<open>value\<close>, and \<open>robot.go\<close> uses \<open>OrderID\<close> (an
  \<open>int64\<close>), \<open>Weight\<close> and \<open>Value\<close> (both added to elements of an \<open>[]int\<close>, hence
  Go \<open>int\<close>s).
\<close>

record Order =
  OrderID :: int
  Weight :: int
  Value :: int

record DeliveryPlan =
  RobotID :: string
  TotalWeight :: int
  TotalValue :: int
  Orders :: "Order list"

subsection \<open>Go integers\<close>

text \<open>
  A Go \<open>int\<close> is a 64-bit two's complement number on the platforms the backend is built
  for, and its arithmetic wraps around silently. The model computes on \<open>int\<close> and
  writes the wrap-around out: every sum and difference of capacities, weights and values
  that the code forms is passed through \<open>wrap64\<close>. The fields of an order and the
  capacity are Go \<open>int\<close>s, that is, numbers for which \<open>int64\<close> holds.
\<close>

definition wrap64 :: "int \<Rightarrow> int" where
  "wrap64 x = (x + 9223372036854775808) mod 18446744073709551616 - 9223372036854775808"

definition int64 :: "int \<Rightarrow> bool" where
  "int64 x \<longleftrightarrow> - 9223372036854775808 \<le> x \<and> x \<le> 9223372036854775807"

definition max_int64 :: int where
  "max_int64 = 9223372036854775807"

subsection \<open>Failures\<close>

text \<open>
  \<open>ctx.Err()\<close> is \<open>context.Canceled\<close> or \<open>context.DeadlineExceeded\<close>; the storage
  layer reports its own errors; an index out of range and a negative length given to
  \<open>make\<close> are run-time panics. All of them are \<open>Inl\<close> values of the model: a
  function that returns \<open>(plan, err)\<close> with \<open>err != nil\<close> is \<open>Inl err\<close>, the plan it
  returns beside the error being the zero value, and a panic unwinds through every
  caller.
\<close>

datatype ctx_error = Canceled | DeadlineExceeded

datatype error =
    CtxError ctx_error
  | StorageError string
  | PanicIndexOutOfRange
  | PanicMakeSliceLen

text \<open>
  A \<open>context.Context\<close> is observed only through \<open>ctx.Done()\<close> and \<open>ctx.Err()\<close>. The
  model is the answer the context gives when the outer loop of the dynamic program asks
  it at order number \<open>i\<close>: \<open>None\<close> while the context is live, \<open>Some e\<close> once it is done.
\<close>

type_synonym go_context = "nat \<Rightarrow> ctx_error option"

subsection \<open>Slices\<close>

text \<open>
  \<open>make\<close> panics (\<open>makeslice: len out of range\<close>) on a negative length, and on a
  length whose size in bytes is beyond the limit the Go runtime puts on one allocation,
  \<open>maxAlloc\<close>: \<open>2^48\<close> bytes on 64-bit Linux, where the backend runs.
  The first argument is the size of an element in bytes, 8 for an \<open>int\<close> and 1 for a
  \<open>bool\<close>. Whether the machine has the memory for an allocation within that limit is
  not modelled. An index outside \<open>0 \<le> i < len\<close> panics, on a read and on a write.
\<close>

definition max_alloc :: int where
  "max_alloc = 281474976710656"

definition make_slice :: "int \<Rightarrow> int \<Rightarrow> 'a \<Rightarrow> error + 'a list" where
  "make_slice elem_size n zero =
     (if n < 0 \<or> max_alloc < elem_size * n then Inl PanicMakeSliceLen
      else Inr (replicate (nat n) zero))"

definition go_index :: "'a list \<Rightarrow> int \<Rightarrow> error + 'a" where
  "go_index xs i =
     (if 0 \<le> i \<and> i < int (length xs) then Inr (xs ! nat i) else Inl PanicIndexOutOfRange)"

definition go_store :: "'a list \<Rightarrow> int \<Rightarrow> 'a \<Rightarrow> error + 'a list" where
  "go_store xs i v =
     (if 0 \<le> i \<and> i < int (length xs) then Inr (xs[nat i := v]) else Inl PanicIndexOutOfRange)"

text \<open>\<open>keep[i][w]\<close> and \<open>keep[i][w] = true\<close>: the row is indexed first, then the column.\<close>

definition go_index2 :: "'a list list \<Rightarrow> int \<Rightarrow> int \<Rightarrow> error + 'a" where
  "go_index2 xss i j =
     (case go_index xss i of Inl e \<Rightarrow> Inl e | Inr row \<Rightarrow> go_index row j)"

definition go_store2 :: "'a list list \<Rightarrow> int \<Rightarrow> int \<Rightarrow> 'a \<Rightarrow> error + 'a list list" where
  "go_store2 xss i j v =
     (case go_index xss i of
        Inl e \<Rightarrow> Inl e
      | Inr row \<Rightarrow> (case go_store row j v of
                     Inl e \<Rightarrow> Inl e
                   | Inr row' \<Rightarrow> Inr (xss[nat i := row'])))"

section \<open>The exact dynamic program (\<open>selectOrdersDP\<close>)\<close>

text \<open>
  The inner loop \<open>for w := robotCapacity; w >= order.Weight; w--\<close> of order number \<open>i\<close>,
  entered at \<open>w\<close>. The decrement cannot wrap: it is reached only after \<open>dp[w]\<close> was read
  in range, so \<open>0 \<le> w\<close>.
\<close>

function fill_row ::
  "Order \<Rightarrow> nat \<Rightarrow> int \<Rightarrow> int list \<times> bool list list \<Rightarrow> error + (int list \<times> bool list list)"
where
  "fill_row order i w (dp, keep) =
     (if Weight order \<le> w then
        (case go_index dp (wrap64 (w - Weight order)) of
           Inl e \<Rightarrow> Inl e
         | Inr prev \<Rightarrow>
             (case go_index dp w of
                Inl e \<Rightarrow> Inl e
              | Inr cur \<Rightarrow>
                  if cur < wrap64 (prev + Value order) then
                    (case go_store dp w (wrap64 (prev + Value order)) of
                       Inl e \<Rightarrow> Inl e
                     | Inr dp' \<Rightarrow>
                         (case go_store2 keep (int i) w True of
                            Inl e \<Rightarrow> Inl e
                          | Inr keep' \<Rightarrow> fill_row order i (w - 1) (dp', keep')))
                  else fill_row order i (w - 1) (dp, keep)))
      else Inr (dp, keep))"
  by pat_completeness auto
termination
  by (relation "measure (\<lambda>(order, i, w, st). nat (w - Weight order + 1))") auto

declare fill_row.simps [simp del]

text \<open>
  The outer loop \<open>for i := 1; i <= n; i++\<close> with \<open>order := orders[i-1]\<close>: the recursion
  walks the orders that are left, \<open>i\<close> being the number of the one at the head. The
  context is asked when \<open>i % 50 == 0\<close>, before the inner loop of that order.
\<close>

fun fill ::
  "go_context \<Rightarrow> int \<Rightarrow> nat \<Rightarrow> Order list \<Rightarrow> int list \<times> bool list list
     \<Rightarrow> error + (int list \<times> bool list list)"
where
  "fill ctx robotCapacity i [] st = Inr st"
| "fill ctx robotCapacity i (order # rest) st =
     (case (if i mod 50 = 0 then ctx i else None) of
        Some e \<Rightarrow> Inl (CtxError e)
      | None \<Rightarrow>
          (case fill_row order i robotCapacity st of
             Inl e \<Rightarrow> Inl e
           | Inr st' \<Rightarrow> fill ctx robotCapacity (Suc i) rest st'))"

text \<open>
  The traceback \<open>for i := n; i > 0 && w > 0; i--\<close>: the first argument counts \<open>i\<close> down,
  \<open>selectedOrders\<close> and \<open>totalWeight\<close> are the accumulators.
\<close>

fun backtrack ::
  "Order list \<Rightarrow> bool list list \<Rightarrow> nat \<Rightarrow> int \<Rightarrow> Order list \<Rightarrow> int
     \<Rightarrow> error + (Order list \<times> int)"
where
  "backtrack orders keep 0 w selectedOrders totalWeight = Inr (selectedOrders, totalWeight)"
| "backtrack orders keep (Suc k) w selectedOrders totalWeight =
     (if 0 < w then
        (case go_index2 keep (int (Suc k)) w of
           Inl e \<Rightarrow> Inl e
         | Inr True \<Rightarrow>
             (case go_index orders (int k) of
                Inl e \<Rightarrow> Inl e
              | Inr order \<Rightarrow>
                  backtrack orders keep k (wrap64 (w - Weight order))
                    (selectedOrders @ [order]) (wrap64 (totalWeight + Weight order)))
         | Inr False \<Rightarrow> backtrack orders keep k w selectedOrders totalWeight)
      else Inr (selectedOrders, totalWeight))"

text \<open>
  The \<open>n + 1\<close> rows of \<open>keep\<close>, each made with \<open>make([]bool, robotCapacity+1)\<close>. The
  slice of the rows itself, \<open>make([][]bool, n+1)\<close>, has \<open>n + 1\<close> elements of 24 bytes, a
  slice header each. An order takes 24 bytes at least, for its three numbers, and the
  \<open>n\<close> orders are in memory, where addresses end at \<open>2^47\<close>: the \<open>n + 1\<close> headers are
  within the limit, and this \<open>make\<close> has no failing branch in the model.
\<close>

fun make_rows :: "nat \<Rightarrow> int \<Rightarrow> error + bool list list" where
  "make_rows 0 len = Inr []"
| "make_rows (Suc k) len =
     (case make_slice 1 len False of
        Inl e \<Rightarrow> Inl e
      | Inr row \<Rightarrow> (case make_rows k len of Inl e \<Rightarrow> Inl e | Inr rows \<Rightarrow> Inr (row # rows)))"

definition selectOrdersDP ::
  "go_context \<Rightarrow> Order list \<Rightarrow> string \<Rightarrow> int \<Rightarrow> error + DeliveryPlan"
where
  "selectOrdersDP ctx orders robotID robotCapacity =
     (let n = length orders in
      case make_slice 8 (wrap64 (robotCapacity + 1)) (0::int) of
        Inl e \<Rightarrow> Inl e
      | Inr dp0 \<Rightarrow>
     (case make_rows (n + 1) (wrap64 (robotCapacity + 1)) of
        Inl e \<Rightarrow> Inl e
      | Inr keep0 \<Rightarrow>
     (case fill ctx robotCapacity 1 orders (dp0, keep0) of
        Inl e \<Rightarrow> Inl e
      | Inr (dp, keep) \<Rightarrow>
     (case backtrack orders keep n robotCapacity [] 0 of
        Inl e \<Rightarrow> Inl e
      | Inr (selectedOrders, totalWeight) \<Rightarrow>
     (case go_index dp robotCapacity of
        Inl e \<Rightarrow> Inl e
      | Inr best \<Rightarrow>
          Inr \<lparr>RobotID = robotID, TotalWeight = totalWeight, TotalValue = best,
               Orders = selectedOrders\<rparr>)))))"

section \<open>The greedy approximation (\<open>selectOrdersGreedy\<close>)\<close>

text \<open>The loop \<open>for _, order := range ordersCopy\<close> over the sorted copy.\<close>

fun greedy_loop ::
  "int \<Rightarrow> Order list \<Rightarrow> Order list \<times> int \<times> int \<Rightarrow> Order list \<times> int \<times> int"
where
  "greedy_loop robotCapacity [] acc = acc"
| "greedy_loop robotCapacity (order # rest) (selectedOrders, totalWeight, totalValue) =
     (if wrap64 (totalWeight + Weight order) \<le> robotCapacity then
        greedy_loop robotCapacity rest
          (selectedOrders @ [order], wrap64 (totalWeight + Weight order),
           wrap64 (totalValue + Value order))
      else greedy_loop robotCapacity rest (selectedOrders, totalWeight, totalValue))"

text \<open>
  The closure handed to \<open>sort.Slice\<close> compares two orders by their quotients
  \<open>float64(Value) / float64(Weight)\<close>. The arithmetic of \<open>float64\<close> is not modelled: the
  quotient of two numbers is the parameter \<open>fdiv\<close>, into a linear order, as \<open>float64\<close>
  orders its numbers and infinities. \<open>0 / 0\<close> is not a number, and \<open><\<close> is false of it
  on either side.
\<close>

datatype 'q float64 = NaN | Num 'q

definition float_div :: "(int \<Rightarrow> int \<Rightarrow> 'q) \<Rightarrow> int \<Rightarrow> int \<Rightarrow> 'q float64" where
  "float_div fdiv v w = (if v = 0 \<and> w = 0 then NaN else Num (fdiv v w))"

definition float_less :: "'q::linorder float64 \<Rightarrow> 'q float64 \<Rightarrow> bool" where
  "float_less a b =
     (case a of NaN \<Rightarrow> False | Num x \<Rightarrow> (case b of NaN \<Rightarrow> False | Num y \<Rightarrow> x < y))"

definition ratio :: "(int \<Rightarrow> int \<Rightarrow> 'q) \<Rightarrow> Order \<Rightarrow> 'q float64" where
  "ratio fdiv order = float_div fdiv (Value order) (Weight order)"

text \<open>
  The closure: \<open>less(i, j)\<close> is \<open>ratio2 < ratio1\<close>, where \<open>ratio1\<close> is the quotient of the
  element at \<open>i\<close> and \<open>ratio2\<close> that of the element at \<open>j\<close>.
\<close>

definition ratio_less :: "(int \<Rightarrow> int \<Rightarrow> 'q::linorder) \<Rightarrow> Order \<Rightarrow> Order \<Rightarrow> bool" where
  "ratio_less fdiv x y \<longleftrightarrow> float_less (ratio fdiv y) (ratio fdiv x)"

text \<open>
  Modelled from the documentation of Go's package \<open>sort\<close>, which is not among the
  sources: \<open>Slice\<close> sorts the slice given the provided less function; the sort is not
  guaranteed to be stable, and equal elements, those of which less holds in neither
  direction, may be reversed from their original order; less must describe a transitive
  ordering, which \<open><\<close> of \<open>float64\<close> is not where a value is not a number.
  \<open>sort_Slice less_fn xs ys\<close> says that the call may leave \<open>ys\<close> for the slice \<open>xs\<close>: a
  rearrangement of \<open>xs\<close>, since the library sorts by swapping elements, in which, where
  less is a transitive ordering of \<open>xs\<close>, no element is less than one before it.
\<close>

definition transitive_ordering :: "('a \<Rightarrow> 'a \<Rightarrow> bool) \<Rightarrow> 'a list \<Rightarrow> bool" where
  "transitive_ordering less_fn xs \<longleftrightarrow>
     (\<forall>x \<in> set xs. \<forall>y \<in> set xs. \<forall>z \<in> set xs.
        (less_fn x y \<and> less_fn y z \<longrightarrow> less_fn x z) \<and>
        (\<not> less_fn x y \<and> \<not> less_fn y z \<longrightarrow> \<not> less_fn x z))"

definition sort_Slice :: "('a \<Rightarrow> 'a \<Rightarrow> bool) \<Rightarrow> 'a list \<Rightarrow> 'a list \<Rightarrow> bool" where
  "sort_Slice less_fn xs ys \<longleftrightarrow>
     mset ys = mset xs \<and>
     (transitive_ordering less_fn xs \<longrightarrow> sorted_wrt (\<lambda>a b. \<not> less_fn b a) ys)"

text \<open>
  In \<open>selectOrdersGreedy\<close> the call is the parameter \<open>sort_slice\<close>: what it leaves in
  \<open>ordersCopy\<close>. The theorems on weights and values ask of it only that its result is a
  permutation of its argument; the theorem on the order of the sorted copy asks
  \<open>sort_Slice\<close> of it, with the closure.
\<close>

definition selectOrdersGreedy ::
  "(Order list \<Rightarrow> Order list) \<Rightarrow> Order list \<Rightarrow> string \<Rightarrow> int \<Rightarrow> DeliveryPlan"
where
  "selectOrdersGreedy sort_slice orders robotID robotCapacity =
     (if length orders = 0 then
        \<lparr>RobotID = robotID, TotalWeight = 0, TotalValue = 0, Orders = []\<rparr>
      else
        (case greedy_loop robotCapacity (sort_slice orders) ([], 0, 0) of
           (selectedOrders, totalWeight, totalValue) \<Rightarrow>
             \<lparr>RobotID = robotID, TotalWeight = totalWeight, TotalValue = totalValue,
              Orders = selectedOrders\<rparr>))"

section \<open>Strategy selection (\<open>selectOrdersForDeliveryOptimized\<close>)\<close>

definition selectOrdersForDeliveryOptimized ::
  "(Order list \<Rightarrow> Order list) \<Rightarrow> go_context \<Rightarrow> Order list \<Rightarrow> string \<Rightarrow> int
     \<Rightarrow> error + DeliveryPlan"
where
  "selectOrdersForDeliveryOptimized sort_slice ctx orders robotID robotCapacity =
     (let n = length orders in
      if n = 0 then
        Inr \<lparr>RobotID = robotID, TotalWeight = 0, TotalValue = 0, Orders = []\<rparr>
      else if n > 500 \<or> robotCapacity > 5000 then
        Inr (selectOrdersGreedy sort_slice orders robotID robotCapacity)
      else selectOrdersDP ctx orders robotID robotCapacity)"

section \<open>The order pool (\<open>OrderRepository\<close>)\<close>

text \<open>
  The database is outside the program. What the program can tell of it is the status of
  each order, by identifier, and the \<open>UPDATE\<close> statements sent to it, oldest first.
\<close>

record pool =
  statuses :: "int \<Rightarrow> string option"
  issued :: "(int list \<times> string) list"

text \<open>
  What the database answers is a parameter: \<open>select_shipping\<close> is the outcome of the
  \<open>SELECT\<close> of \<open>GetShippingOrders\<close> (the rows, in the order the database delivers
  them, or its error); \<open>exec_update\<close> is \<open>None\<close> when the \<open>UPDATE\<close> of
  \<open>UpdateStatuses\<close> succeeds and \<open>Some (e, touched)\<close> when it fails with \<open>e\<close>,
  \<open>touched\<close> being the rows it had changed by then.
\<close>

record storage =
  select_shipping :: "error + Order list"
  exec_update :: "(error \<times> int list) option"

definition GetShippingOrders :: "storage \<Rightarrow> error + Order list" where
  "GetShippingOrders db = select_shipping db"

text \<open>
  \<open>UPDATE orders SET shipped_status = ? WHERE order_id IN (?)\<close> on the given rows.
  \<open>sqlx.In\<close> fails only on an empty slice or a wrong number of arguments; with the
  early return for no identifiers neither occurs, and the failure that remains is the one
  of the statement.
\<close>

definition set_status :: "int list \<Rightarrow> string \<Rightarrow> (int \<Rightarrow> string option) \<Rightarrow> (int \<Rightarrow> string option)" where
  "set_status ids newStatus st =
     (\<lambda>oid. if oid \<in> set ids then map_option (\<lambda>_. newStatus) (st oid) else st oid)"

definition UpdateStatuses ::
  "storage \<Rightarrow> int list \<Rightarrow> string \<Rightarrow> pool \<Rightarrow> (error + unit) \<times> pool"
where
  "UpdateStatuses db orderIDs newStatus p =
     (if length orderIDs = 0 then (Inr (), p)
      else
        (case exec_update db of
           Some (e, touched) \<Rightarrow>
             (Inl e,
              p\<lparr>statuses := set_status (filter (\<lambda>oid. oid \<in> set touched) orderIDs) newStatus (statuses p),
                issued := issued p @ [(orderIDs, newStatus)]\<rparr>)
         | None \<Rightarrow>
             (Inr (),
              p\<lparr>statuses := set_status orderIDs newStatus (statuses p),
                issued := issued p @ [(orderIDs, newStatus)]\<rparr>)))"

section \<open>The orchestrator (\<open>GenerateDeliveryPlan\<close>)\<close>

text \<open>
  Modelled from the spec: \<open>Store.ExecTx\<close> is not among the sources. The spec (4.2, 5
  and 7) has the steps of a request run inside one transactional scope, and any failure
  at any step abort the transaction, so that no partial status update persists: the
  function is run on the pool; when it fails the statuses are again what they were and
  the failure is handed on; when it succeeds its changes stay.
\<close>

definition ExecTx :: "(pool \<Rightarrow> (error + 'a) \<times> pool) \<Rightarrow> pool \<Rightarrow> (error + 'a) \<times> pool" where
  "ExecTx fn p =
     (case fn p of
        (Inl e, p') \<Rightarrow> (Inl e, p'\<lparr>statuses := statuses p\<rparr>)
      | (Inr v, p') \<Rightarrow> (Inr v, p'))"

text \<open>
  Modelled from the spec: \<open>utils.WithTimeout\<close> is not among the sources. The spec (2 and
  5) has it impose one deadline on the whole request: it runs the function under a
  context that carries the deadline and returns what the function returns. What that
  context answers when it is asked is the \<open>go_context\<close> of the model.
\<close>

definition WithTimeout :: "go_context \<Rightarrow> (go_context \<Rightarrow> 'a) \<Rightarrow> 'a" where
  "WithTimeout ctx fn = fn ctx"

text \<open>
  The function literal handed to \<open>ExecTx\<close>. It assigns the plan to a variable of the
  enclosing function; here it returns it. The two \<open>log.Printf\<close> calls have no effect on
  the result and are left out.
\<close>

definition plan_tx ::
  "(Order list \<Rightarrow> Order list) \<Rightarrow> storage \<Rightarrow> go_context \<Rightarrow> string \<Rightarrow> int \<Rightarrow> pool
     \<Rightarrow> (error + DeliveryPlan) \<times> pool"
where
  "plan_tx sort_slice db ctx robotID capacity txStore =
     (case GetShippingOrders db of
        Inl e \<Rightarrow> (Inl e, txStore)
      | Inr orders \<Rightarrow>
          (case selectOrdersForDeliveryOptimized sort_slice ctx orders robotID capacity of
             Inl e \<Rightarrow> (Inl e, txStore)
           | Inr plan \<Rightarrow>
               if length (Orders plan) > 0 then
                 (case UpdateStatuses db (map OrderID (Orders plan)) ''delivering'' txStore of
                    (Inl e, txStore') \<Rightarrow> (Inl e, txStore')
                  | (Inr u, txStore') \<Rightarrow> (Inr plan, txStore'))
               else (Inr plan, txStore)))"

definition GenerateDeliveryPlan ::
  "(Order list \<Rightarrow> Order list) \<Rightarrow> storage \<Rightarrow> go_context \<Rightarrow> string \<Rightarrow> int \<Rightarrow> pool
     \<Rightarrow> (error + DeliveryPlan) \<times> pool"
where
  "GenerateDeliveryPlan sort_slice db ctx robotID capacity p =
     WithTimeout ctx (\<lambda>ctx'. ExecTx (plan_tx sort_slice db ctx' robotID capacity) p)"

section \<open>Closed forms of the loops\<close>

text \<open>
  The functions of this section are not in the program. Each of them says in one
  expression what a loop of the program leaves behind; the lemmas below prove that the
  loop computes it, and the theorems reason about the closed form.
\<close>

text \<open>
  The inner loop, entered at \<open>w\<close>, has looked at the budgets \<open>Weight x \<le> j \<le> w\<close>.
  There it has stored \<open>includeValue\<close> where it is larger than the entry, and set the
  flag of the row.
\<close>

definition include_value :: "Order \<Rightarrow> int list \<Rightarrow> nat \<Rightarrow> int" where
  "include_value x dp j = wrap64 (dp ! nat (int j - Weight x) + Value x)"

definition improves :: "Order \<Rightarrow> int \<Rightarrow> int list \<Rightarrow> nat \<Rightarrow> bool" where
  "improves x w dp j \<longleftrightarrow> Weight x \<le> int j \<and> int j \<le> w \<and> dp ! j < include_value x dp j"

definition dp_upto :: "Order \<Rightarrow> int \<Rightarrow> int list \<Rightarrow> int list" where
  "dp_upto x w dp =
     map (\<lambda>j. if improves x w dp j then include_value x dp j else dp ! j) [0..<length dp]"

definition keep_upto :: "Order \<Rightarrow> int \<Rightarrow> int list \<Rightarrow> bool list \<Rightarrow> bool list" where
  "keep_upto x w dp row = map (\<lambda>j. improves x w dp j \<or> row ! j) [0..<length row]"

text \<open>The whole inner loop of one order, from \<open>robotCapacity\<close> down, on a fresh row.\<close>

definition dp_row :: "Order \<Rightarrow> int list \<Rightarrow> int list" where
  "dp_row x dp = dp_upto x (int (length dp) - 1) dp"

definition keep_row :: "Order \<Rightarrow> int list \<Rightarrow> bool list" where
  "keep_row x dp = keep_upto x (int (length dp) - 1) dp (replicate (length dp) False)"

text \<open>The outer loop: \<open>dp\<close> after the orders, and the rows of \<open>keep\<close> they fill.\<close>

fun dp_rows :: "int list \<Rightarrow> Order list \<Rightarrow> int list" where
  "dp_rows dp [] = dp"
| "dp_rows dp (x # xs) = dp_rows (dp_row x dp) xs"

fun keep_rows :: "int list \<Rightarrow> Order list \<Rightarrow> bool list list" where
  "keep_rows dp [] = []"
| "keep_rows dp (x # xs) = keep_row x dp # keep_rows (dp_row x dp) xs"

text \<open>
  The first answer \<open>Some e\<close> the context gives at a checkpoint, when the outer loop runs
  over \<open>k\<close> orders numbered from \<open>i\<close>.
\<close>

fun cancelled_at :: "go_context \<Rightarrow> nat \<Rightarrow> nat \<Rightarrow> ctx_error option" where
  "cancelled_at ctx i 0 = None"
| "cancelled_at ctx i (Suc k) =
     (case (if i mod 50 = 0 then ctx i else None) of
        Some e \<Rightarrow> Some e
      | None \<Rightarrow> cancelled_at ctx (Suc i) k)"

text \<open>The orders the traceback appends, from row \<open>k\<close> and budget \<open>w\<close> on.\<close>

fun chosen :: "Order list \<Rightarrow> bool list list \<Rightarrow> nat \<Rightarrow> int \<Rightarrow> Order list" where
  "chosen orders keep 0 w = []"
| "chosen orders keep (Suc k) w =
     (if 0 < w then
        (if keep ! Suc k ! nat w
         then orders ! k # chosen orders keep k (w - Weight (orders ! k))
         else chosen orders keep k w)
      else [])"

text \<open>A flag of \<open>keep\<close> is set only at a budget the order of its row fits in.\<close>

definition keep_sound :: "Order list \<Rightarrow> bool list list \<Rightarrow> bool" where
  "keep_sound orders keep \<longleftrightarrow>
     (\<forall>r < length orders. \<forall>j < length (keep ! Suc r).
        keep ! Suc r ! j \<longrightarrow> Weight (orders ! r) \<le> int j)"

text \<open>The plan the dynamic program returns when no checkpoint stops it.\<close>

definition dp_plan :: "Order list \<Rightarrow> string \<Rightarrow> int \<Rightarrow> DeliveryPlan" where
  "dp_plan orders robotID cap =
     (let dp0 = replicate (nat (cap + 1)) (0::int);
          keep = replicate (nat (cap + 1)) False # keep_rows dp0 orders;
          sel = chosen orders keep (length orders) cap
      in \<lparr>RobotID = robotID, TotalWeight = sum_list (map Weight sel),
          TotalValue = dp_rows dp0 orders ! nat cap, Orders = sel\<rparr>)"

text \<open>
  The knapsack recurrence over the orders processed so far, the latest first: the best
  value within budget \<open>w\<close>.
\<close>

fun knap :: "Order list \<Rightarrow> int \<Rightarrow> int" where
  "knap [] w = 0"
| "knap (x # xs) w =
     (if Weight x \<le> w \<and> knap xs w < knap xs (w - Weight x) + Value x
      then knap xs (w - Weight x) + Value x else knap xs w)"

text \<open>The orders the greedy loop appends, from running weight \<open>tw\<close> on.\<close>

fun picked :: "int \<Rightarrow> Order list \<Rightarrow> int \<Rightarrow> Order list" where
  "picked cap [] tw = []"
| "picked cap (x # xs) tw =
     (if tw + Weight x \<le> cap then x # picked cap xs (tw + Weight x) else picked cap xs tw)"

text \<open>
  The quotient of an order whose weight is not 0, and the sorted copy as the
  specification describes it: in descending order of the quotient, orders of equal
  quotients in their original relative order. \<open>sort_key\<close> sorts in ascending order and
  keeps equal keys in order, so the list is reversed before and after.
  \<open>keeps_ties key xs ys\<close>: the elements of any one key come in \<open>ys\<close> in the order they
  have in \<open>xs\<close>.
\<close>

definition order_quotient :: "(int \<Rightarrow> int \<Rightarrow> 'q) \<Rightarrow> Order \<Rightarrow> 'q" where
  "order_quotient fdiv order = fdiv (Value order) (Weight order)"

definition spec_sorted :: "(int \<Rightarrow> int \<Rightarrow> 'q::linorder) \<Rightarrow> Order list \<Rightarrow> Order list" where
  "spec_sorted fdiv orders = rev (sort_key (order_quotient fdiv) (rev orders))"

definition keeps_ties :: "('a \<Rightarrow> 'q) \<Rightarrow> 'a list \<Rightarrow> 'a list \<Rightarrow> bool" where
  "keeps_ties key xs ys \<longleftrightarrow>
     (\<forall>x \<in> set xs. filter (\<lambda>y. key y = key x) ys = filter (\<lambda>y. key y = key x) xs)"

section \<open>Inputs of the examples\<close>

text \<open>
  \<open>context.Background()\<close> is never done; \<open>expired\<close> is a context whose deadline has
  passed by the time the dynamic program asks it. \<open>spec_orders\<close> is the example of
  section 8 of the spec.
\<close>

definition background :: go_context where
  "background i = None"

definition expired :: go_context where
  "expired i = Some DeadlineExceeded"

definition mk_order :: "int \<Rightarrow> int \<Rightarrow> int \<Rightarrow> Order" where
  "mk_order oid w v = \<lparr>OrderID = oid, Weight = w, Value = v\<rparr>"

definition spec_orders :: "Order list" where
  "spec_orders = [mk_order 1 2 3, mk_order 2 3 4, mk_order 3 4 5, mk_order 4 5 6]"

text \<open>
  \<open>dense_orders\<close> is already in descending order of ratio, and the greedy choice on it
  is not the best one. \<open>wrapping_orders\<close>, also in descending order of ratio, has values
  whose sums leave the 64-bit range, and \<open>heavy_orders\<close> weights that do.
  \<open>unit_orders n\<close> are \<open>n\<close> orders of weight and value 1.
\<close>

definition dense_orders :: "Order list" where
  "dense_orders = [mk_order 1 1 2, mk_order 2 3 4, mk_order 3 3 4]"

definition wrapping_orders :: "Order list" where
  "wrapping_orders =
     [mk_order 1 1 4611686018427387904, mk_order 2 2 6148914691236517206,
      mk_order 3 2 6148914691236517206, mk_order 4 2 6148914691236517206]"

definition heavy_orders :: "Order list" where
  "heavy_orders = [mk_order 1 1 5, mk_order 2 9223372036854775807 1]"

definition unit_orders :: "nat \<Rightarrow> Order list" where
  "unit_orders n = map (\<lambda>i. mk_order (int i) 1 1) [1..<Suc n]"

text \<open>
  \<open>exact_ratio\<close> is the quotient as a fraction: the quotients of the examples below are
  1, 2, 3 and 1/2, numbers that \<open>float64\<close> holds and its division gives exactly.
  \<open>tie_orders\<close> are thirteen orders of weight 1, the first of value 1 and the twelve
  others of value 2. \<open>tie_sorted\<close> is what \<open>sort.Slice\<close>, the pattern-defeating quicksort
  of Go 1.19 and later, leaves for them. Thirteen elements are more than the twelve it
  sorts by insertion; it takes the element at index 6, order 7, as the pivot and swaps
  it with the first element; no element sorts before the pivot, which stays in front;
  and the twelve elements behind it are sorted by insertion, which moves order 1 to the
  end. \<open>mixed_orders\<close> have three different quotients, and \<open>mixed_sorted\<close> is their
  sorted copy. \<open>leaves ys\<close> stands for a call of \<open>sort.Slice\<close> that leaves \<open>ys\<close>.
\<close>

definition leaves :: "'a list \<Rightarrow> 'a list \<Rightarrow> 'a list" where
  "leaves ys xs = ys"

definition exact_ratio :: "int \<Rightarrow> int \<Rightarrow> rat" where
  "exact_ratio v w = of_int v / of_int w"

definition tie_orders :: "Order list" where
  "tie_orders =
     mk_order 1 1 1 # map (\<lambda>i. mk_order i 1 2) [2, 3, 4, 5, 6, 7, 8, 9, 10, 11, 12, 13]"

definition tie_sorted :: "Order list" where
  "tie_sorted =
     map (\<lambda>i. mk_order i 1 2) [7, 2, 3, 4, 5, 6, 8, 9, 10, 11, 12, 13] @ [mk_order 1 1 1]"

definition mixed_orders :: "Order list" where
  "mixed_orders = [mk_order 1 2 1, mk_order 2 1 3, mk_order 3 1 1]"

definition mixed_sorted :: "Order list" where
  "mixed_sorted = [mk_order 2 1 3, mk_order 3 1 1, mk_order 1 2 1]"

text \<open>
  A pool in which the orders 1 to 50 await assignment, a database that answers the
  \<open>SELECT\<close> with the given orders and accepts the \<open>UPDATE\<close>, and one whose \<open>UPDATE\<close>
  fails after it has changed order 2.
\<close>

definition shipping_pool :: pool where
  "shipping_pool = \<lparr>statuses = (\<lambda>oid. if 1 \<le> oid \<and> oid \<le> 50 then Some ''shipping'' else None),
                    issued = []\<rparr>"

definition db_with :: "Order list \<Rightarrow> storage" where
  "db_with orders = \<lparr>select_shipping = Inr orders, exec_update = None\<rparr>"

definition db_failing_update :: "Order list \<Rightarrow> storage" where
  "db_failing_update orders =
     \<lparr>select_shipping = Inr orders, exec_update = Some (StorageError ''deadlock'', [2])\<rparr>"

section \<open>The loops compute their closed forms\<close>

lemma wrap64_id: "int64 x \<Longrightarrow> wrap64 x = x"
  by (simp add: wrap64_def int64_def)

lemma improves_below: "w < Weight x \<Longrightarrow> \<not> improves x w dp j"
  by (auto simp: improves_def)

lemma dp_upto_below: "w < Weight x \<Longrightarrow> dp_upto x w dp = dp"
  by (simp add: dp_upto_def improves_below map_nth)

lemma keep_upto_below: "w < Weight x \<Longrightarrow> keep_upto x w dp row = row"
  by (simp add: keep_upto_def improves_below map_nth)

lemma length_dp_upto [simp]: "length (dp_upto x w dp) = length dp"
  by (simp add: dp_upto_def)

lemma length_keep_upto [simp]: "length (keep_upto x w dp row) = length row"
  by (simp add: keep_upto_def)

lemma improves_step_update:
  assumes "0 \<le> Weight x" "Weight x \<le> w" "w < int (length dp)"
  shows "improves x (w - 1) (dp[nat w := v]) j \<longleftrightarrow> improves x (w - 1) dp j"
  using assms by (auto simp: improves_def include_value_def nth_list_update)

lemma include_step_update:
  assumes "0 \<le> Weight x" "int j \<le> w - 1"
  shows "include_value x (dp[nat w := v]) j = include_value x dp j"
  using assms by (auto simp: include_value_def nth_list_update)

lemma dp_upto_step_yes:
  assumes "0 \<le> Weight x" "Weight x \<le> w" "w < int (length dp)"
      and "dp ! nat w < include_value x dp (nat w)"
  shows "dp_upto x (w - 1) (dp[nat w := include_value x dp (nat w)]) = dp_upto x w dp"
proof (rule nth_equalityI)
  show "length (dp_upto x (w - 1) (dp[nat w := include_value x dp (nat w)])) = length (dp_upto x w dp)"
    by simp
next
  fix j assume "j < length (dp_upto x (w - 1) (dp[nat w := include_value x dp (nat w)]))"
  then have j: "j < length dp" by simp
  show "dp_upto x (w - 1) (dp[nat w := include_value x dp (nat w)]) ! j = dp_upto x w dp ! j"
  proof (cases "int j = w")
    case True
    then have "nat w = j" by simp
    with True assms j show ?thesis
      by (simp add: dp_upto_def improves_def)
  next
    case False
    then have ne: "nat w \<noteq> j" using assms by auto
    have imp: "improves x w dp j \<longleftrightarrow> improves x (w - 1) dp j"
      using False by (auto simp: improves_def)
    show ?thesis
    proof (cases "improves x (w - 1) dp j")
      case True
      then have "int j \<le> w - 1" by (simp add: improves_def)
      with True assms j ne imp show ?thesis
        by (simp add: dp_upto_def improves_step_update include_step_update)
    next
      case False
      with assms j ne imp show ?thesis
        by (simp add: dp_upto_def improves_step_update)
    qed
  qed
qed

lemma dp_upto_step_no:
  assumes "Weight x \<le> w" "w < int (length dp)"
      and "\<not> dp ! nat w < include_value x dp (nat w)"
  shows "dp_upto x (w - 1) dp = dp_upto x w dp"
proof -
  have "improves x w dp j \<longleftrightarrow> improves x (w - 1) dp j" for j
  proof (cases "int j = w")
    case True
    then have "nat w = j" by simp
    with True assms show ?thesis by (auto simp: improves_def)
  next
    case False
    then show ?thesis by (auto simp: improves_def)
  qed
  then show ?thesis by (simp add: dp_upto_def)
qed

lemma keep_upto_step_yes:
  assumes "0 \<le> Weight x" "Weight x \<le> w" "w < int (length dp)" "length row = length dp"
      and "dp ! nat w < include_value x dp (nat w)"
  shows "keep_upto x (w - 1) (dp[nat w := v]) (row[nat w := True]) = keep_upto x w dp row"
proof (rule nth_equalityI)
  show "length (keep_upto x (w - 1) (dp[nat w := v]) (row[nat w := True])) = length (keep_upto x w dp row)"
    by simp
next
  fix j assume "j < length (keep_upto x (w - 1) (dp[nat w := v]) (row[nat w := True]))"
  then have j: "j < length dp" using assms by simp
  show "keep_upto x (w - 1) (dp[nat w := v]) (row[nat w := True]) ! j = keep_upto x w dp row ! j"
  proof (cases "int j = w")
    case True
    then have "nat w = j" by simp
    with True assms j show ?thesis
      by (simp add: keep_upto_def improves_def)
  next
    case False
    then have ne: "nat w \<noteq> j" using assms by auto
    have imp: "improves x w dp j \<longleftrightarrow> improves x (w - 1) dp j"
      using False by (auto simp: improves_def)
    from assms j ne imp show ?thesis
      by (simp add: keep_upto_def improves_step_update)
  qed
qed

lemma keep_upto_step_no:
  assumes "Weight x \<le> w" "w < int (length dp)"
      and "\<not> dp ! nat w < include_value x dp (nat w)"
  shows "keep_upto x (w - 1) dp row = keep_upto x w dp row"
proof -
  have "improves x w dp j \<longleftrightarrow> improves x (w - 1) dp j" for j
  proof (cases "int j = w")
    case True
    then have "nat w = j" by simp
    with True assms show ?thesis by (auto simp: improves_def)
  next
    case False
    then show ?thesis by (auto simp: improves_def)
  qed
  then show ?thesis by (simp add: keep_upto_def)
qed

lemma fill_row_closed:
  assumes "0 \<le> Weight x" "w < int (length dp)" "int (length dp) \<le> 9223372036854775808"
      and "i < length keep" "length (keep ! i) = length dp"
  shows "fill_row x i w (dp, keep) =
           Inr (dp_upto x w dp, keep[i := keep_upto x w dp (keep ! i)])"
  using assms
proof (induction x i w "(dp, keep)" arbitrary: dp keep rule: fill_row.induct)
  case (1 x i w dp keep)
  show ?case
  proof (cases "Weight x \<le> w")
    case False
    then show ?thesis
      by (simp add: fill_row.simps[of x i w] dp_upto_below keep_upto_below)
  next
    case True
    have w0: "0 \<le> w" using True "1.prems" by simp
    have sub: "wrap64 (w - Weight x) = w - Weight x"
      using True "1.prems" by (intro wrap64_id) (simp add: int64_def)
    have rd1: "go_index dp (wrap64 (w - Weight x)) = Inr (dp ! nat (w - Weight x))"
      using True "1.prems" sub by (simp add: go_index_def)
    have rd2: "go_index dp w = Inr (dp ! nat w)"
      using w0 "1.prems" by (simp add: go_index_def)
    have inc: "wrap64 (dp ! nat (w - Weight x) + Value x) = include_value x dp (nat w)"
      using w0 by (simp add: include_value_def)
    show ?thesis
    proof (cases "dp ! nat w < include_value x dp (nat w)")
      case yes: True
      let ?iv = "wrap64 (dp ! nat (w - Weight x) + Value x)"
      have yes': "dp ! nat w < ?iv" using yes inc by simp
      have st1: "go_store dp w ?iv = Inr (dp[nat w := ?iv])"
        using w0 "1.prems" by (simp add: go_store_def)
      have st2: "go_store2 keep (int i) w True = Inr (keep[i := (keep ! i)[nat w := True]])"
        using w0 "1.prems" by (simp add: go_store2_def go_index_def go_store_def)
      have ih: "fill_row x i (w - 1) (dp[nat w := ?iv], keep[i := (keep ! i)[nat w := True]]) =
          Inr (dp_upto x (w - 1) (dp[nat w := ?iv]),
               (keep[i := (keep ! i)[nat w := True]])[i := keep_upto x (w - 1) (dp[nat w := ?iv])
                   ((keep[i := (keep ! i)[nat w := True]]) ! i)])"
        using "1.prems" by (intro "1.hyps"(1)[OF True rd1 rd2 yes' st1 st2]) simp_all
      show ?thesis
        using True rd1 rd2 inc yes st1 st2 ih "1.prems"
          dp_upto_step_yes[OF "1.prems"(1) True "1.prems"(2) yes]
          keep_upto_step_yes[OF "1.prems"(1) True "1.prems"(2) "1.prems"(5) yes]
        by (simp add: fill_row.simps[of x i w])
    next
      case no: False
      have ih: "fill_row x i (w - 1) (dp, keep) =
          Inr (dp_upto x (w - 1) dp, keep[i := keep_upto x (w - 1) dp (keep ! i)])"
        using "1.prems" no inc by (intro "1.hyps"(2)[OF True rd1 rd2]) simp_all
      show ?thesis
        using True rd1 rd2 inc no ih
          dp_upto_step_no[OF True "1.prems"(2) no]
          keep_upto_step_no[OF True "1.prems"(2) no]
        by (simp add: fill_row.simps[of x i w])
    qed
  qed
qed

lemma length_dp_row [simp]: "length (dp_row x dp) = length dp"
  by (simp add: dp_row_def)

lemma length_dp_rows [simp]: "length (dp_rows dp xs) = length dp"
  by (induction xs arbitrary: dp) simp_all

lemma length_keep_row [simp]: "length (keep_row x dp) = length dp"
  by (simp add: keep_row_def)

lemma length_keep_rows [simp]: "length (keep_rows dp xs) = length xs"
  by (induction xs arbitrary: dp) simp_all

lemma fill_closed:
  assumes "\<forall>x \<in> set os. 0 \<le> Weight x"
      and "cap = int (length dp) - 1" "int (length dp) \<le> 9223372036854775808"
      and "i = length rows"
  shows "fill ctx cap i os (dp, rows @ replicate (length os) (replicate (length dp) False)) =
           (case cancelled_at ctx i (length os) of
              Some e \<Rightarrow> Inl (CtxError e)
            | None \<Rightarrow> Inr (dp_rows dp os, rows @ keep_rows dp os))"
  using assms
proof (induction os arbitrary: i dp rows)
  case Nil
  then show ?case by simp
next
  case (Cons x os)
  let ?blank = "replicate (length dp) False"
  let ?keep = "rows @ replicate (length (x # os)) ?blank"
  show ?case
  proof (cases "if i mod 50 = 0 then ctx i else None")
    case (Some e)
    then show ?thesis by simp
  next
    case None
    have keep_i: "?keep ! i = ?blank"
      using Cons.prems by (simp add: nth_append)
    have row: "fill_row x i cap (dp, ?keep) =
                 Inr (dp_upto x cap dp, ?keep[i := keep_upto x cap dp (?keep ! i)])"
      using Cons.prems by (intro fill_row_closed) (simp_all add: nth_append)
    have upd: "?keep[i := keep_upto x cap dp (?keep ! i)] =
                 (rows @ [keep_row x dp]) @ replicate (length os) (replicate (length (dp_row x dp)) False)"
      using Cons.prems keep_i by (simp add: keep_row_def list_update_append)
    have ih: "fill ctx cap (Suc i) os (dp_row x dp,
                 (rows @ [keep_row x dp]) @ replicate (length os) (replicate (length (dp_row x dp)) False)) =
              (case cancelled_at ctx (Suc i) (length os) of
                 Some e \<Rightarrow> Inl (CtxError e)
               | None \<Rightarrow> Inr (dp_rows (dp_row x dp) os, (rows @ [keep_row x dp]) @ keep_rows (dp_row x dp) os))"
      using Cons.prems by (intro Cons.IH) simp_all
    have "dp_upto x cap dp = dp_row x dp"
      using Cons.prems by (simp add: dp_row_def)
    with None row upd ih show ?thesis by (simp split: option.split)
  qed
qed

lemma go_index_nat: "k < length xs \<Longrightarrow> go_index xs (int k) = Inr (xs ! k)"
  unfolding go_index_def by (simp only: nat_int of_nat_less_iff of_nat_0_le_iff simp_thms if_True)

lemma go_index_in: "0 \<le> i \<Longrightarrow> i < int (length xs) \<Longrightarrow> go_index xs i = Inr (xs ! nat i)"
  by (simp add: go_index_def)

lemma backtrack_closed:
  assumes "k \<le> length orders" "length keep = length orders + 1"
      and "\<forall>r \<le> length orders. length (keep ! r) = len"
      and "w < int len" "int len \<le> 9223372036854775808"
      and "keep_sound orders keep" "\<forall>x \<in> set orders. 0 \<le> Weight x"
      and "0 \<le> tw" "tw + w \<le> 9223372036854775807"
  shows "backtrack orders keep k w sel tw =
           Inr (sel @ chosen orders keep k w,
                tw + sum_list (map Weight (chosen orders keep k w)))"
  using assms
proof (induction k arbitrary: w sel tw)
  case 0
  then show ?case by simp
next
  case (Suc k)
  show ?case
  proof (cases "0 < w")
    case False
    then show ?thesis by simp
  next
    case True
    have rd: "go_index2 keep (int (Suc k)) w = Inr (keep ! Suc k ! nat w)"
    proof -
      have "Suc k < length keep" using Suc.prems by simp
      then have "go_index keep (int (Suc k)) = Inr (keep ! Suc k)" by (rule go_index_nat)
      moreover have "go_index (keep ! Suc k) w = Inr (keep ! Suc k ! nat w)"
        using True Suc.prems by (intro go_index_in) simp_all
      ultimately show ?thesis by (simp only: go_index2_def sum.case)
    qed
    show ?thesis
    proof (cases "keep ! Suc k ! nat w")
      case no: False
      have "backtrack orders keep k w sel tw =
              Inr (sel @ chosen orders keep k w, tw + sum_list (map Weight (chosen orders keep k w)))"
        using Suc.prems by (intro Suc.IH) simp_all
      with True rd no show ?thesis by (simp del: of_nat_Suc)
    next
      case yes: True
      let ?x = "orders ! k"
      have ox: "go_index orders (int k) = Inr ?x"
        using Suc.prems by (intro go_index_nat) simp
      have wt: "Weight ?x \<le> w"
      proof -
        have "k < length orders" using Suc.prems by simp
        moreover have "nat w < length (keep ! Suc k)" using True Suc.prems by simp
        ultimately have "Weight ?x \<le> int (nat w)"
          using Suc.prems(6) yes unfolding keep_sound_def by blast
        with True show ?thesis by simp
      qed
      have w0: "0 \<le> Weight ?x" using Suc.prems by simp
      have sub: "wrap64 (w - Weight ?x) = w - Weight ?x"
        using wt w0 Suc.prems(4,5) by (intro wrap64_id) (simp add: int64_def)
      have add: "wrap64 (tw + Weight ?x) = tw + Weight ?x"
        using wt w0 Suc.prems(8,9) by (intro wrap64_id) (simp add: int64_def)
      have "backtrack orders keep k (w - Weight ?x) (sel @ [?x]) (tw + Weight ?x) =
              Inr ((sel @ [?x]) @ chosen orders keep k (w - Weight ?x),
                   (tw + Weight ?x) + sum_list (map Weight (chosen orders keep k (w - Weight ?x))))"
      proof (intro Suc.IH)
        show "w - Weight ?x < int len" using w0 Suc.prems(4) by linarith
        show "0 \<le> tw + Weight ?x" using w0 Suc.prems(8) by linarith
        show "tw + Weight ?x + (w - Weight ?x) \<le> 9223372036854775807" using Suc.prems(9) by linarith
      qed (use Suc.prems in simp_all)
      with True rd yes ox sub add show ?thesis by (simp del: of_nat_Suc)
    qed
  qed
qed

lemma make_rows_closed:
  "0 \<le> len \<Longrightarrow> len \<le> max_alloc \<Longrightarrow>
     make_rows k len = Inr (replicate k (replicate (nat len) False))"
  by (induction k) (simp_all add: make_slice_def)

lemma keep_rows_nth:
  "r < length os \<Longrightarrow> keep_rows dp os ! r = keep_row (os ! r) (dp_rows dp (take r os))"
proof (induction os arbitrary: r dp)
  case Nil
  then show ?case by simp
next
  case (Cons x os)
  then show ?case by (cases r) simp_all
qed

lemma keep_row_nth:
  "j < length dp \<Longrightarrow>
     keep_row x dp ! j \<longleftrightarrow> Weight x \<le> int j \<and> dp ! j < include_value x dp j"
  by (auto simp: keep_row_def keep_upto_def improves_def)

lemma dp_row_nth:
  "j < length dp \<Longrightarrow>
     dp_row x dp ! j =
       (if Weight x \<le> int j \<and> dp ! j < include_value x dp j then include_value x dp j
        else dp ! j)"
  by (auto simp: dp_row_def dp_upto_def improves_def)

lemma keep_sound_rows: "keep_sound orders (blank # keep_rows dp orders)"
  unfolding keep_sound_def
  by (simp add: keep_rows_nth keep_row_nth)

lemma selectOrdersDP_closed:
  assumes "0 \<le> cap" "cap \<le> 35184372088831" "\<forall>x \<in> set orders. 0 \<le> Weight x"
  shows "selectOrdersDP ctx orders robotID cap =
           (case cancelled_at ctx 1 (length orders) of
              Some e \<Rightarrow> Inl (CtxError e)
            | None \<Rightarrow> Inr (dp_plan orders robotID cap))"
proof -
  let ?len = "nat (cap + 1)"
  let ?dp0 = "replicate ?len (0::int)"
  let ?blank = "replicate ?len False"
  let ?keep = "?blank # keep_rows ?dp0 orders"
  have w: "wrap64 (cap + 1) = cap + 1"
    using assms by (intro wrap64_id) (simp add: int64_def)
  have mk: "make_slice 8 (wrap64 (cap + 1)) (0::int) = Inr ?dp0"
    using assms w by (simp add: make_slice_def max_alloc_def)
  have mr: "make_rows (length orders + 1) (wrap64 (cap + 1)) = Inr (replicate (length orders + 1) ?blank)"
    using assms w make_rows_closed[of "cap + 1" "length orders + 1"] by (simp add: max_alloc_def)
  have fl: "fill ctx cap 1 orders (?dp0, [?blank] @ replicate (length orders) (replicate (length ?dp0) False)) =
              (case cancelled_at ctx 1 (length orders) of
                 Some e \<Rightarrow> Inl (CtxError e)
               | None \<Rightarrow> Inr (dp_rows ?dp0 orders, [?blank] @ keep_rows ?dp0 orders))"
    using assms by (intro fill_closed) simp_all
  have bt: "backtrack orders ?keep (length orders) cap [] 0 =
              Inr ([] @ chosen orders ?keep (length orders) cap,
                   0 + sum_list (map Weight (chosen orders ?keep (length orders) cap)))"
  proof (intro backtrack_closed[where len = ?len])
    show "\<forall>r\<le>length orders. length (?keep ! r) = ?len"
    proof (intro allI impI)
      fix r assume "r \<le> length orders"
      then show "length (?keep ! r) = ?len"
        by (cases r) (simp_all add: keep_rows_nth)
    qed
    show "keep_sound orders ?keep" by (rule keep_sound_rows)
  qed (use assms in simp_all)
  have rd: "go_index (dp_rows ?dp0 orders) cap = Inr (dp_rows ?dp0 orders ! nat cap)"
    using assms by (intro go_index_in) simp_all
  show ?thesis
  proof (cases "cancelled_at ctx 1 (length orders)")
    case (Some e)
    with mk mr fl show ?thesis by (simp add: selectOrdersDP_def)
  next
    case None
    with mk mr fl bt rd show ?thesis
      by (simp add: selectOrdersDP_def dp_plan_def Let_def)
  qed
qed

lemma knap_nonneg: "0 \<le> knap xs w"
proof (induction xs arbitrary: w)
  case Nil
  show ?case by simp
next
  case (Cons x xs)
  have "0 \<le> knap xs w" by (rule Cons.IH)
  then show ?case by simp
qed

lemma knap_le_sum:
  "\<forall>x \<in> set xs. 0 \<le> Value x \<Longrightarrow> knap xs w \<le> sum_list (map Value xs)"
proof (induction xs arbitrary: w)
  case Nil
  show ?case by simp
next
  case (Cons x xs)
  have a: "knap xs w \<le> sum_list (map Value xs)" 
    and b: "knap xs (w - Weight x) \<le> sum_list (map Value xs)"
    using Cons by simp_all
  have "0 \<le> Value x" using Cons.prems by simp
  with a b show ?case by simp
qed

lemma knap_no_room:
  "\<forall>x \<in> set xs. 0 < Weight x \<Longrightarrow> w \<le> 0 \<Longrightarrow> knap xs w = 0"
  by (induction xs) auto

lemma subseq_mset_le: "subseq ys xs \<Longrightarrow> mset ys \<subseteq># mset xs"
proof (induction rule: list_emb.induct)
  case (list_emb_Nil ys)
  show ?case by simp
next
  case (list_emb_Cons xs ys y)
  have "mset ys \<subseteq># mset (y # ys)" by simp
  with list_emb_Cons.IH show ?case by (rule subset_mset.order_trans)
next
  case (list_emb_Cons2 x y xs ys)
  then show ?case by simp
qed

lemma knap_upper:
  assumes "mset ys \<subseteq># mset xs" "\<forall>x \<in> set xs. 0 \<le> Weight x"
      and "sum_list (map Weight ys) \<le> w"
  shows "sum_list (map Value ys) \<le> knap xs w"
  using assms
proof (induction xs arbitrary: ys w)
  case Nil
  then show ?case by simp
next
  case (Cons x xs)
  have mono: "knap xs w \<le> knap (x # xs) w" by simp
  show ?case
  proof (cases "x \<in> set ys")
    case False
    then have "x \<notin># mset ys" by simp
    moreover have "mset ys \<subseteq># add_mset x (mset xs)" using Cons.prems(1) by simp
    ultimately have "mset ys \<subseteq># mset xs"
      by (metis Diff_eq_empty_iff_mset minus_add_mset_if_not_in_lhs)
    then have "sum_list (map Value ys) \<le> knap xs w"
      using Cons.prems by (intro Cons.IH) simp_all
    with mono show ?thesis by linarith
  next
    case True
    let ?ys = "remove1 x ys"
    have sub: "mset ?ys \<subseteq># mset xs"
      using Cons.prems(1) True by (simp add: subset_eq_diff_conv)
    have wsum: "sum_list (map Weight ys) = Weight x + sum_list (map Weight ?ys)"
      using True by (rule sum_list_map_remove1)
    have vsum: "sum_list (map Value ys) = Value x + sum_list (map Value ?ys)"
      using True by (rule sum_list_map_remove1)
    have "set ?ys \<subseteq> set xs"
      using sub by (metis set_mset_mono set_mset_mset)
    then have "\<forall>y \<in> set ?ys. 0 \<le> Weight y" using Cons.prems(2) by auto
    then have rest0: "0 \<le> sum_list (map Weight ?ys)"
      by (intro sum_list_nonneg) auto
    have fits: "Weight x \<le> w" using wsum rest0 Cons.prems(3) by linarith
    have "sum_list (map Value ?ys) \<le> knap xs (w - Weight x)"
      using sub Cons.prems wsum by (intro Cons.IH) simp_all
    then have "sum_list (map Value ys) \<le> knap xs (w - Weight x) + Value x"
      using vsum by linarith
    also have "\<dots> \<le> knap (x # xs) w" using fits by simp
    finally show ?thesis .
  qed
qed

lemma dp_row_knap:
  assumes dp: "\<forall>j < length dp. dp ! j = knap acc (int j)"
      and x: "0 \<le> Weight x" "0 \<le> Value x"
      and acc: "\<forall>y \<in> set acc. 0 \<le> Value y"
      and bound: "sum_list (map Value acc) + Value x \<le> 9223372036854775807"
      and j: "j < length dp"
  shows "dp_row x dp ! j = knap (x # acc) (int j)"
    and "keep_row x dp ! j \<longleftrightarrow>
           Weight x \<le> int j \<and> knap acc (int j) < knap acc (int j - Weight x) + Value x"
proof -
  have inc: "include_value x dp j = knap acc (int j - Weight x) + Value x"
    if fits: "Weight x \<le> int j"
  proof -
    have "nat (int j - Weight x) < length dp" using fits x(1) j by linarith
    then have "dp ! nat (int j - Weight x) = knap acc (int (nat (int j - Weight x)))"
      using dp by blast
    also have "int (nat (int j - Weight x)) = int j - Weight x" using fits by simp
    finally have rd: "dp ! nat (int j - Weight x) = knap acc (int j - Weight x)" .
    have "0 \<le> knap acc (int j - Weight x)" by (rule knap_nonneg)
    moreover have "knap acc (int j - Weight x) \<le> sum_list (map Value acc)"
      using acc by (rule knap_le_sum)
    ultimately have "int64 (knap acc (int j - Weight x) + Value x)"
      using x(2) bound by (simp add: int64_def)
    then show ?thesis by (simp add: include_value_def rd wrap64_id)
  qed
  have cur: "dp ! j = knap acc (int j)" using dp j by blast
  show "dp_row x dp ! j = knap (x # acc) (int j)"
  proof (cases "Weight x \<le> int j")
    case True
    with j cur inc[OF True] show ?thesis by (simp add: dp_row_nth)
  next
    case False
    with j cur show ?thesis by (simp add: dp_row_nth)
  qed
  show "keep_row x dp ! j \<longleftrightarrow>
           Weight x \<le> int j \<and> knap acc (int j) < knap acc (int j - Weight x) + Value x"
  proof (cases "Weight x \<le> int j")
    case True
    with j cur inc[OF True] show ?thesis by (simp add: keep_row_nth)
  next
    case False
    with j show ?thesis by (simp add: keep_row_nth)
  qed
qed

lemma sum_list_map_rev: "sum_list (map f (rev xs)) = (sum_list (map f xs) :: int)"
  by (induction xs) simp_all

lemma dp_rows_knap:
  assumes "\<forall>j < length dp. dp ! j = knap acc (int j)"
      and "\<forall>x \<in> set os. 0 \<le> Weight x \<and> 0 \<le> Value x"
      and "\<forall>y \<in> set acc. 0 \<le> Value y"
      and "sum_list (map Value acc) + sum_list (map Value os) \<le> 9223372036854775807"
      and "j < length dp"
  shows "dp_rows dp os ! j = knap (rev os @ acc) (int j)"
  using assms
proof (induction os arbitrary: dp acc)
  case Nil
  then show ?case by simp
next
  case (Cons x os)
  have rest0: "0 \<le> sum_list (map Value os)"
    using Cons.prems(2) by (intro sum_list_nonneg) auto
  have row: "\<forall>j < length (dp_row x dp). dp_row x dp ! j = knap (x # acc) (int j)"
  proof (intro allI impI)
    fix j assume "j < length (dp_row x dp)"
    then have "j < length dp" by simp
    then show "dp_row x dp ! j = knap (x # acc) (int j)"
      using Cons.prems rest0 by (intro dp_row_knap(1)) simp_all
  qed
  have "dp_rows (dp_row x dp) os ! j = knap (rev os @ (x # acc)) (int j)"
    using row Cons.prems by (intro Cons.IH) (simp_all add: add.assoc)
  then show ?case by simp
qed

lemma sum_take_nth_le:
  assumes "\<forall>x \<in> set os. 0 \<le> Value x" "r < length os"
  shows "sum_list (map Value (take r os)) + Value (os ! r) \<le> sum_list (map Value os)"
proof -
  have "os = take r os @ os ! r # drop (Suc r) os"
    using assms(2) by (rule id_take_nth_drop)
  then have "sum_list (map Value os) =
      sum_list (map Value (take r os)) + Value (os ! r) + sum_list (map Value (drop (Suc r) os))"
    by (metis add.assoc list.simps(9) map_append sum_list.Cons sum_list.append)
  moreover have "0 \<le> sum_list (map Value (drop (Suc r) os))"
    using assms(1) by (intro sum_list_nonneg) (auto dest: in_set_dropD)
  ultimately show ?thesis by linarith
qed

lemma keep_rows_knap:
  assumes "\<forall>x \<in> set os. 0 \<le> Weight x \<and> 0 \<le> Value x"
      and "sum_list (map Value os) \<le> 9223372036854775807"
      and "r < length os" "j < len"
  shows "keep_rows (replicate len 0) os ! r ! j \<longleftrightarrow>
           Weight (os ! r) \<le> int j \<and>
           knap (rev (take r os)) (int j)
             < knap (rev (take r os)) (int j - Weight (os ! r)) + Value (os ! r)"
proof -
  let ?pre = "take r os"
  let ?dp = "dp_rows (replicate len 0) ?pre"
  have pre: "\<forall>x \<in> set ?pre. 0 \<le> Weight x \<and> 0 \<le> Value x"
    using assms(1) by (auto dest: in_set_takeD)
  have le: "sum_list (map Value ?pre) + Value (os ! r) \<le> sum_list (map Value os)"
    using assms(1,3) by (intro sum_take_nth_le) auto
  have v0: "0 \<le> Value (os ! r)" using assms(1,3) by simp
  have dp: "\<forall>j < length ?dp. ?dp ! j = knap (rev ?pre) (int j)"
  proof (intro allI impI)
    fix j assume "j < length ?dp"
    then have j: "j < length (replicate len (0::int))" by simp
    have "?dp ! j = knap (rev ?pre @ []) (int j)"
      using pre le v0 assms(2) j by (intro dp_rows_knap) simp_all
    then show "?dp ! j = knap (rev ?pre) (int j)" by simp
  qed
  have "keep_row (os ! r) ?dp ! j \<longleftrightarrow>
          Weight (os ! r) \<le> int j \<and>
          knap (rev ?pre) (int j) < knap (rev ?pre) (int j - Weight (os ! r)) + Value (os ! r)"
    using dp pre assms le by (intro dp_row_knap(2)) (simp_all add: sum_list_map_rev)
  then show ?thesis using assms(3) by (simp add: keep_rows_nth)
qed

lemma chosen_weight:
  assumes "k \<le> length orders" "\<forall>r \<le> length orders. length (keep ! r) = len"
      and "keep_sound orders keep" "0 \<le> w" "w < int len"
      and "\<forall>x \<in> set orders. 0 \<le> Weight x"
  shows "sum_list (map Weight (chosen orders keep k w)) \<le> w"
  using assms
proof (induction k arbitrary: w)
  case 0
  then show ?case by simp
next
  case (Suc k)
  show ?case
  proof (cases "0 < w \<and> keep ! Suc k ! nat w")
    case False
    have "sum_list (map Weight (chosen orders keep k w)) \<le> w"
      using Suc.prems by (intro Suc.IH) simp_all
    with False Suc.prems(4) show ?thesis by auto
  next
    case True
    let ?x = "orders ! k"
    have "k < length orders" using Suc.prems by simp
    moreover have "length (keep ! Suc k) = len" using Suc.prems(1,2) by blast
    then have "nat w < length (keep ! Suc k)" using True Suc.prems(5) by linarith
    ultimately have "Weight ?x \<le> int (nat w)"
      using Suc.prems(3) True unfolding keep_sound_def by blast
    then have wt: "Weight ?x \<le> w" using True by simp
    have "sum_list (map Weight (chosen orders keep k (w - Weight ?x))) \<le> w - Weight ?x"
    proof (intro Suc.IH)
      show "0 \<le> w - Weight ?x" using wt by simp
      have "0 \<le> Weight ?x" using Suc.prems(1,6) by simp
      then show "w - Weight ?x < int len" using Suc.prems(5) by linarith
    qed (use Suc.prems in simp_all)
    with True show ?thesis by simp
  qed
qed

lemma chosen_subseq:
  "k \<le> length orders \<Longrightarrow> subseq (rev (chosen orders keep k w)) (take k orders)"
proof (induction k arbitrary: w)
  case 0
  show ?case by simp
next
  case (Suc k)
  then have k: "k < length orders" by simp
  have tk: "take (Suc k) orders = take k orders @ [orders ! k]"
    using k by (rule take_Suc_conv_app_nth)
  have ih: "subseq (rev (chosen orders keep k v)) (take k orders)" for v
    using k by (intro Suc.IH) simp
  show ?case
  proof (cases "0 < w \<and> keep ! Suc k ! nat w")
    case True
    then show ?thesis
      using ih[of "w - Weight (orders ! k)"] tk by (simp add: list_emb_append_mono)
  next
    case False
    then show ?thesis
      using ih[of w] tk by (auto intro: subseq_rev_drop_many)
  qed
qed

lemma chosen_value:
  assumes "k \<le> length orders" "0 \<le> w" "w < int len"
      and "\<forall>x \<in> set orders. 0 < Weight x \<and> 0 \<le> Value x"
      and "sum_list (map Value orders) \<le> 9223372036854775807"
  shows "sum_list (map Value
           (chosen orders (replicate len False # keep_rows (replicate len 0) orders) k w)) =
         knap (rev (take k orders)) w"
  using assms(1,2,3)
proof (induction k arbitrary: w)
  case 0
  then show ?case by simp
next
  case (Suc k)
  let ?keep = "replicate len False # keep_rows (replicate len 0) orders"
  let ?x = "orders ! k"
  have k: "k < length orders" using Suc.prems by simp
  have tk: "rev (take (Suc k) orders) = ?x # rev (take k orders)"
    using k by (simp add: take_Suc_conv_app_nth)
  show ?case
  proof (cases "0 < w")
    case False
    then have "w \<le> 0" by simp
    moreover have "\<forall>x \<in> set (rev (take (Suc k) orders)). 0 < Weight x"
      using assms(4) by (auto dest: in_set_takeD)
    ultimately have "knap (rev (take (Suc k) orders)) w = 0" by (intro knap_no_room)
    with False show ?thesis by simp
  next
    case True
    have nn: "\<forall>x \<in> set orders. 0 \<le> Weight x \<and> 0 \<le> Value x"
      using assms(4) by auto
    have "nat w < len" using Suc.prems by simp
    then have kp: "?keep ! Suc k ! nat w \<longleftrightarrow>
            Weight ?x \<le> int (nat w) \<and>
            knap (rev (take k orders)) (int (nat w))
              < knap (rev (take k orders)) (int (nat w) - Weight ?x) + Value ?x"
      using keep_rows_knap[OF nn assms(5) k, of "nat w" len] by simp
    have nw: "int (nat w) = w" using True by simp
    show ?thesis
    proof (cases "?keep ! Suc k ! nat w")
      case yes: True
      then have wt: "Weight ?x \<le> w" using kp nw by simp
      have "0 < Weight ?x" using assms(4) k by simp
      then have "sum_list (map Value (chosen orders ?keep k (w - Weight ?x))) =
              knap (rev (take k orders)) (w - Weight ?x)"
        using k wt Suc.prems by (intro Suc.IH) simp_all
      with True yes kp nw tk show ?thesis by simp
    next
      case no: False
      have "sum_list (map Value (chosen orders ?keep k w)) = knap (rev (take k orders)) w"
        using k Suc.prems by (intro Suc.IH) simp_all
      with True no kp nw tk show ?thesis by auto
    qed
  qed
qed

lemma picked_subseq: "subseq (picked cap xs tw) xs"
  by (induction xs arbitrary: tw) auto

lemma picked_weight:
  "tw \<le> cap \<Longrightarrow> tw + sum_list (map Weight (picked cap xs tw)) \<le> cap"
proof (induction xs arbitrary: tw)
  case Nil
  then show ?case by simp
next
  case (Cons x xs)
  show ?case
  proof (cases "tw + Weight x \<le> cap")
    case True
    then have "tw + Weight x + sum_list (map Weight (picked cap xs (tw + Weight x))) \<le> cap"
      by (rule Cons.IH)
    with True show ?thesis by (simp add: add.assoc)
  next
    case False
    with Cons show ?thesis by simp
  qed
qed

lemma greedy_loop_weight:
  assumes "\<forall>x \<in> set xs. 0 \<le> Weight x" "0 \<le> tw"
      and "tw + sum_list (map Weight xs) \<le> 9223372036854775807"
  shows "\<exists>tv'. greedy_loop cap xs (sel, tw, tv) =
           (sel @ picked cap xs tw, tw + sum_list (map Weight (picked cap xs tw)), tv')"
  using assms
proof (induction xs arbitrary: sel tw tv)
  case Nil
  then show ?case by simp
next
  case (Cons x xs)
  have x0: "0 \<le> Weight x" using Cons.prems by simp
  have rest0: "0 \<le> sum_list (map Weight xs)"
    using Cons.prems(1) by (intro sum_list_nonneg) auto
  have add: "wrap64 (tw + Weight x) = tw + Weight x"
    using x0 rest0 Cons.prems(2,3) by (intro wrap64_id) (simp add: int64_def)
  show ?case
  proof (cases "tw + Weight x \<le> cap")
    case True
    have "\<exists>tv'. greedy_loop cap xs (sel @ [x], tw + Weight x, wrap64 (tv + Value x)) =
            ((sel @ [x]) @ picked cap xs (tw + Weight x),
             tw + Weight x + sum_list (map Weight (picked cap xs (tw + Weight x))), tv')"
      using Cons.prems x0 by (intro Cons.IH) (simp_all add: add.assoc)
    with True add show ?thesis by (simp add: add.assoc)
  next
    case False
    have "\<exists>tv'. greedy_loop cap xs (sel, tw, tv) =
            (sel @ picked cap xs tw, tw + sum_list (map Weight (picked cap xs tw)), tv')"
      using Cons.prems x0 by (intro Cons.IH) simp_all
    with False add show ?thesis by simp
  qed
qed

lemma greedy_loop_closed:
  assumes "\<forall>x \<in> set xs. 0 \<le> Weight x \<and> 0 \<le> Value x" "0 \<le> tw" "0 \<le> tv"
      and "tw + sum_list (map Weight xs) \<le> 9223372036854775807"
      and "tv + sum_list (map Value xs) \<le> 9223372036854775807"
  shows "greedy_loop cap xs (sel, tw, tv) =
           (sel @ picked cap xs tw, tw + sum_list (map Weight (picked cap xs tw)),
            tv + sum_list (map Value (picked cap xs tw)))"
  using assms
proof (induction xs arbitrary: sel tw tv)
  case Nil
  then show ?case by simp
next
  case (Cons x xs)
  have x0: "0 \<le> Weight x" "0 \<le> Value x" using Cons.prems by simp_all
  have rest0: "0 \<le> sum_list (map Weight xs)" "0 \<le> sum_list (map Value xs)"
    using Cons.prems(1) by (auto intro!: sum_list_nonneg)
  have add: "wrap64 (tw + Weight x) = tw + Weight x"
    using x0 rest0 Cons.prems(2,4) by (intro wrap64_id) (simp add: int64_def)
  have addv: "wrap64 (tv + Value x) = tv + Value x"
    using x0 rest0 Cons.prems(3,5) by (intro wrap64_id) (simp add: int64_def)
  show ?case
  proof (cases "tw + Weight x \<le> cap")
    case True
    have "greedy_loop cap xs (sel @ [x], tw + Weight x, tv + Value x) =
            ((sel @ [x]) @ picked cap xs (tw + Weight x),
             tw + Weight x + sum_list (map Weight (picked cap xs (tw + Weight x))),
             tv + Value x + sum_list (map Value (picked cap xs (tw + Weight x))))"
      using Cons.prems x0 by (intro Cons.IH) (simp_all add: add.assoc)
    with True add addv show ?thesis by (simp add: add.assoc)
  next
    case False
    have "greedy_loop cap xs (sel, tw, tv) =
            (sel @ picked cap xs tw, tw + sum_list (map Weight (picked cap xs tw)),
             tv + sum_list (map Value (picked cap xs tw)))"
      using Cons.prems x0 rest0 by (intro Cons.IH) simp_all
    with False add show ?thesis by simp
  qed
qed

lemma not_cancelled:
  "\<forall>i. i mod 50 = 0 \<longrightarrow> ctx i = None \<Longrightarrow> cancelled_at ctx i k = None"
  by (induction k arbitrary: i) simp_all

lemma cancelled_at_short:
  "0 < i \<Longrightarrow> i + k \<le> 50 \<Longrightarrow> cancelled_at ctx i k = None"
  by (induction k arbitrary: i) simp_all

lemma cancelled_at_50:
  "0 < i \<Longrightarrow> i \<le> 50 \<Longrightarrow> 50 < i + k \<Longrightarrow> ctx 50 = Some e \<Longrightarrow> cancelled_at ctx i k = Some e"
proof (induction k arbitrary: i)
  case 0
  then show ?case by simp
next
  case (Suc k)
  show ?case
  proof (cases "i = 50")
    case True
    with Suc.prems show ?thesis by simp
  next
    case False
    then have "i mod 50 \<noteq> 0" using Suc.prems by simp
    moreover have "cancelled_at ctx (Suc i) k = Some e"
      using Suc.prems False by (intro Suc.IH) simp_all
    ultimately show ?thesis by simp
  qed
qed

lemma dp_plan_weak:
  assumes "0 \<le> cap" "\<forall>x \<in> set orders. 0 \<le> Weight x"
  shows "TotalWeight (dp_plan orders robotID cap) =
           sum_list (map Weight (Orders (dp_plan orders robotID cap)))"
    and "sum_list (map Weight (Orders (dp_plan orders robotID cap))) \<le> cap"
    and "subseq (rev (Orders (dp_plan orders robotID cap))) orders"
    and "RobotID (dp_plan orders robotID cap) = robotID"
proof -
  let ?len = "nat (cap + 1)"
  let ?keep = "replicate ?len False # keep_rows (replicate ?len 0) orders"
  show "TotalWeight (dp_plan orders robotID cap) =
           sum_list (map Weight (Orders (dp_plan orders robotID cap)))"
    by (simp add: dp_plan_def Let_def)
  show "RobotID (dp_plan orders robotID cap) = robotID"
    by (simp add: dp_plan_def Let_def)
  have "sum_list (map Weight (chosen orders ?keep (length orders) cap)) \<le> cap"
  proof (intro chosen_weight[where len = ?len])
    show "\<forall>r\<le>length orders. length (?keep ! r) = ?len"
    proof (intro allI impI)
      fix r assume "r \<le> length orders"
      then show "length (?keep ! r) = ?len"
        by (cases r) (simp_all add: keep_rows_nth)
    qed
    show "keep_sound orders ?keep" by (rule keep_sound_rows)
  qed (use assms in simp_all)
  then show "sum_list (map Weight (Orders (dp_plan orders robotID cap))) \<le> cap"
    by (simp add: dp_plan_def Let_def)
  have "subseq (rev (chosen orders ?keep (length orders) cap)) (take (length orders) orders)"
    by (intro chosen_subseq) simp
  then show "subseq (rev (Orders (dp_plan orders robotID cap))) orders"
    by (simp add: dp_plan_def Let_def)
qed

lemma dp_plan_strong:
  assumes "0 \<le> cap" "\<forall>x \<in> set orders. 0 < Weight x \<and> 0 \<le> Value x"
      and "sum_list (map Value orders) \<le> 9223372036854775807"
  shows "TotalValue (dp_plan orders robotID cap) = knap (rev orders) cap"
    and "sum_list (map Value (Orders (dp_plan orders robotID cap))) = knap (rev orders) cap"
proof -
  let ?len = "nat (cap + 1)"
  have nn: "\<forall>x \<in> set orders. 0 \<le> Weight x \<and> 0 \<le> Value x"
    using assms(2) by auto
  have "dp_rows (replicate ?len 0) orders ! nat cap = knap (rev orders @ []) (int (nat cap))"
    using nn assms(1,3) by (intro dp_rows_knap) simp_all
  then show "TotalValue (dp_plan orders robotID cap) = knap (rev orders) cap"
    using assms(1) by (simp add: dp_plan_def Let_def)
  have "sum_list (map Value (chosen orders
           (replicate ?len False # keep_rows (replicate ?len 0) orders) (length orders) cap)) =
        knap (rev (take (length orders) orders)) cap"
    using assms by (intro chosen_value) simp_all
  then show "sum_list (map Value (Orders (dp_plan orders robotID cap))) = knap (rev orders) cap"
    by (simp add: dp_plan_def Let_def)
qed

lemma knap_upper_subseq:
  assumes "subseq ys orders" "\<forall>x \<in> set orders. 0 \<le> Weight x"
      and "sum_list (map Weight ys) \<le> cap"
  shows "sum_list (map Value ys) \<le> knap (rev orders) cap"
proof -
  have "mset ys \<subseteq># mset (rev orders)"
    using assms(1) by (simp add: subseq_mset_le)
  then show ?thesis using assms(2,3) by (intro knap_upper) simp_all
qed

lemma sum_list_map_perm:
  "mset xs = mset ys \<Longrightarrow> sum_list (map f xs) = (sum_list (map f ys) :: int)"
  by (metis mset_map sum_mset_sum_list)

lemma selectOrdersGreedy_weight:
  assumes "mset (sort_slice orders) = mset orders" "\<forall>x \<in> set orders. 0 \<le> Weight x"
      and "sum_list (map Weight orders) \<le> 9223372036854775807"
  shows "Orders (selectOrdersGreedy sort_slice orders robotID cap) = picked cap (sort_slice orders) 0"
    and "TotalWeight (selectOrdersGreedy sort_slice orders robotID cap) =
           sum_list (map Weight (picked cap (sort_slice orders) 0))"
proof -
  let ?xs = "sort_slice orders"
  have set_eq: "set ?xs = set orders" using assms(1) by (rule mset_eq_setD)
  have nn: "\<forall>x \<in> set ?xs. 0 \<le> Weight x" using assms(2) set_eq by simp
  have sum: "0 + sum_list (map Weight ?xs) \<le> 9223372036854775807"
    using assms(1,3) sum_list_map_perm[of ?xs orders Weight] by simp
  obtain tv' where run: "greedy_loop cap ?xs ([], 0, 0) =
      ([] @ picked cap ?xs 0, 0 + sum_list (map Weight (picked cap ?xs 0)), tv')"
    using greedy_loop_weight[OF nn _ sum, of cap "[]" 0] by auto
  have empty: "orders = [] \<Longrightarrow> ?xs = []" using assms(1) by simp
  show "Orders (selectOrdersGreedy sort_slice orders robotID cap) = picked cap ?xs 0"
    using run empty by (auto simp: selectOrdersGreedy_def)
  show "TotalWeight (selectOrdersGreedy sort_slice orders robotID cap) =
           sum_list (map Weight (picked cap ?xs 0))"
    using run empty by (auto simp: selectOrdersGreedy_def)
qed

lemma selectOrdersGreedy_value:
  assumes "mset (sort_slice orders) = mset orders"
      and "\<forall>x \<in> set orders. 0 \<le> Weight x \<and> 0 \<le> Value x"
      and "sum_list (map Weight orders) \<le> 9223372036854775807"
      and "sum_list (map Value orders) \<le> 9223372036854775807"
  shows "TotalValue (selectOrdersGreedy sort_slice orders robotID cap) =
           sum_list (map Value (picked cap (sort_slice orders) 0))"
proof -
  let ?xs = "sort_slice orders"
  have set_eq: "set ?xs = set orders" using assms(1) by (rule mset_eq_setD)
  have nn: "\<forall>x \<in> set ?xs. 0 \<le> Weight x \<and> 0 \<le> Value x" using assms(2) set_eq by simp
  have sumw: "0 + sum_list (map Weight ?xs) \<le> 9223372036854775807"
    using assms(1,3) sum_list_map_perm[of ?xs orders Weight] by simp
  have sumv: "0 + sum_list (map Value ?xs) \<le> 9223372036854775807"
    using assms(1,4) sum_list_map_perm[of ?xs orders Value] by simp
  have run: "greedy_loop cap ?xs ([], 0, 0) =
      ([] @ picked cap ?xs 0, 0 + sum_list (map Weight (picked cap ?xs 0)),
       0 + sum_list (map Value (picked cap ?xs 0)))"
    using nn sumw sumv by (intro greedy_loop_closed) simp_all
  have empty: "orders = [] \<Longrightarrow> ?xs = []" using assms(1) by simp
  show ?thesis using run empty by (auto simp: selectOrdersGreedy_def)
qed

lemma picked_sub_mset:
  assumes "mset (sort_slice orders) = mset orders"
  shows "mset (picked cap (sort_slice orders) 0) \<subseteq># mset orders"
  using subseq_mset_le[OF picked_subseq, of cap "sort_slice orders" 0] assms by simp

lemma backtrack_no_budget:
  "w \<le> 0 \<Longrightarrow> backtrack orders keep k w sel tw = Inr (sel, tw)"
  by (cases k) simp_all

lemma selectOrdersDP_minus_one:
  assumes "\<forall>x \<in> set orders. 0 \<le> Weight x"
  shows "selectOrdersDP ctx orders robotID (- 1) =
           (case cancelled_at ctx 1 (length orders) of
              Some e \<Rightarrow> Inl (CtxError e)
            | None \<Rightarrow> Inl PanicIndexOutOfRange)"
proof -
  have w: "wrap64 (- 1 + 1) = 0" by (simp add: wrap64_def)
  have mk: "make_slice 8 (wrap64 (- 1 + 1)) (0::int) = Inr []"
    using w by (simp add: make_slice_def max_alloc_def)
  have mr: "make_rows (length orders + 1) (wrap64 (- 1 + 1)) = Inr (replicate (length orders + 1) [])"
    using w make_rows_closed[of 0 "length orders + 1"] by (simp add: max_alloc_def)
  have fl: "fill ctx (- 1) 1 orders ([], [[]] @ replicate (length orders) (replicate (length ([]::int list)) False)) =
              (case cancelled_at ctx 1 (length orders) of
                 Some e \<Rightarrow> Inl (CtxError e)
               | None \<Rightarrow> Inr (dp_rows [] orders, [[]] @ keep_rows [] orders))"
    using assms by (intro fill_closed) simp_all
  have rd: "go_index (dp_rows [] orders) (- 1) = Inl PanicIndexOutOfRange"
    by (simp add: go_index_def)
  show ?thesis
  proof (cases "cancelled_at ctx 1 (length orders)")
    case (Some e)
    with mk mr fl show ?thesis by (simp add: selectOrdersDP_def)
  next
    case None
    with mk mr fl rd show ?thesis
      by (simp add: selectOrdersDP_def backtrack_no_budget)
  qed
qed

lemma selectOrdersDP_make_panics:
  assumes "35184372088831 < cap" "cap \<le> max_int64"
  shows "selectOrdersDP ctx orders robotID cap = Inl PanicMakeSliceLen"
proof (cases "cap = 9223372036854775807")
  case True
  then show ?thesis by (simp add: selectOrdersDP_def make_slice_def wrap64_def)
next
  case False
  then have "int64 (cap + 1)" using assms by (simp add: int64_def max_int64_def)
  then have "wrap64 (cap + 1) = cap + 1" by (rule wrap64_id)
  then show ?thesis
    using assms by (simp add: selectOrdersDP_def make_slice_def max_alloc_def)
qed

lemma selectOrdersDP_no_index_panic:
  assumes "0 \<le> cap" "cap \<le> max_int64" "\<forall>x \<in> set orders. 0 \<le> Weight x"
  shows "selectOrdersDP ctx orders robotID cap \<noteq> Inl PanicIndexOutOfRange"
proof (cases "cap \<le> 35184372088831")
  case True
  have "selectOrdersDP ctx orders robotID cap =
          (case cancelled_at ctx 1 (length orders) of
             Some e \<Rightarrow> Inl (CtxError e)
           | None \<Rightarrow> Inr (dp_plan orders robotID cap))"
    using assms(1) True assms(3) by (rule selectOrdersDP_closed)
  then show ?thesis by (simp split: option.split)
next
  case False
  then have "selectOrdersDP ctx orders robotID cap = Inl PanicMakeSliceLen"
    using assms(2) by (intro selectOrdersDP_make_panics) simp_all
  then show ?thesis by simp
qed

lemma dp_rows_zero_budget:
  "\<forall>x \<in> set os. 0 < Weight x \<Longrightarrow> 0 < length dp \<Longrightarrow> dp_rows dp os ! 0 = dp ! 0"
proof (induction os arbitrary: dp)
  case Nil
  show ?case by simp
next
  case (Cons x os)
  have "dp_rows (dp_row x dp) os ! 0 = dp_row x dp ! 0"
    using Cons.prems by (intro Cons.IH) simp_all
  also have "\<dots> = dp ! 0" using Cons.prems by (simp add: dp_row_nth)
  finally show ?case by simp
qed

lemma chosen_no_budget: "w \<le> 0 \<Longrightarrow> chosen orders keep k w = []"
  by (cases k) simp_all

lemma dp_plan_zero_capacity:
  assumes "\<forall>x \<in> set orders. 0 < Weight x"
  shows "dp_plan orders robotID 0 =
           \<lparr>RobotID = robotID, TotalWeight = 0, TotalValue = 0, Orders = []\<rparr>"
proof -
  have "dp_rows [0] orders ! 0 = [0::int] ! 0"
    using assms by (intro dp_rows_zero_budget) simp_all
  then show ?thesis by (simp add: dp_plan_def chosen_no_budget)
qed

lemma greedy_loop_zero_capacity:
  "\<forall>x \<in> set xs. 0 < Weight x \<and> Weight x \<le> 9223372036854775807 \<Longrightarrow>
     greedy_loop 0 xs (sel, 0, tv) = (sel, 0, tv)"
proof (induction xs)
  case Nil
  show ?case by simp
next
  case (Cons x xs)
  then have "int64 (Weight x)" by (simp add: int64_def)
  then have "wrap64 (0 + Weight x) = Weight x" by (simp add: wrap64_id)
  with Cons show ?case by simp
qed

lemma select_zero_capacity:
  assumes "\<forall>x \<in> set orders. 0 < Weight x \<and> Weight x \<le> max_int64"
      and "mset (sort_slice orders) = mset orders"
  shows "selectOrdersForDeliveryOptimized sort_slice ctx orders robotID 0 =
           (if 0 < length orders \<and> length orders \<le> 500 then
              (case cancelled_at ctx 1 (length orders) of
                 Some e \<Rightarrow> Inl (CtxError e)
               | None \<Rightarrow> Inr \<lparr>RobotID = robotID, TotalWeight = 0, TotalValue = 0, Orders = []\<rparr>)
            else Inr \<lparr>RobotID = robotID, TotalWeight = 0, TotalValue = 0, Orders = []\<rparr>)"
proof -
  have pos: "\<forall>x \<in> set orders. 0 < Weight x" using assms(1) by auto
  have nn: "\<forall>x \<in> set orders. 0 \<le> Weight x" using assms(1) by auto
  have "set (sort_slice orders) = set orders" using assms(2) by (rule mset_eq_setD)
  then have "\<forall>x \<in> set (sort_slice orders). 0 < Weight x \<and> Weight x \<le> 9223372036854775807"
    using assms(1) by (simp add: max_int64_def)
  then have "greedy_loop 0 (sort_slice orders) ([], 0, 0) = ([], 0, 0)"
    by (rule greedy_loop_zero_capacity)
  then have g: "selectOrdersGreedy sort_slice orders robotID 0 =
      \<lparr>RobotID = robotID, TotalWeight = 0, TotalValue = 0, Orders = []\<rparr>"
    by (simp add: selectOrdersGreedy_def)
  have dp: "selectOrdersDP ctx orders robotID 0 =
              (case cancelled_at ctx 1 (length orders) of
                 Some e \<Rightarrow> Inl (CtxError e)
               | None \<Rightarrow> Inr (dp_plan orders robotID 0))"
    using nn by (intro selectOrdersDP_closed) simp_all
  show ?thesis
    using g dp dp_plan_zero_capacity[OF pos, of robotID]
    by (simp add: selectOrdersForDeliveryOptimized_def split: option.split)
qed

lemma generate_no_orders:
  assumes "GetShippingOrders db = Inr orders"
      and "selectOrdersForDeliveryOptimized sort_slice ctx orders robotID cap = Inr plan"
      and "Orders plan = []"
  shows "GenerateDeliveryPlan sort_slice db ctx robotID cap p = (Inr plan, p)"
  using assms by (simp add: GenerateDeliveryPlan_def WithTimeout_def ExecTx_def plan_tx_def)

lemma generate_selection_fails:
  assumes "GetShippingOrders db = Inr orders"
      and "selectOrdersForDeliveryOptimized sort_slice ctx orders robotID cap = Inl e"
  shows "GenerateDeliveryPlan sort_slice db ctx robotID cap p = (Inl e, p)"
  using assms by (simp add: GenerateDeliveryPlan_def WithTimeout_def ExecTx_def plan_tx_def)

lemma generate_fetch_fails:
  assumes "GetShippingOrders db = Inl e"
  shows "GenerateDeliveryPlan sort_slice db ctx robotID cap p = (Inl e, p)"
  using assms by (simp add: GenerateDeliveryPlan_def WithTimeout_def ExecTx_def plan_tx_def)

lemma generate_commits:
  assumes "GetShippingOrders db = Inr orders"
      and "selectOrdersForDeliveryOptimized sort_slice ctx orders robotID cap = Inr plan"
      and "Orders plan \<noteq> []" "exec_update db = None"
  shows "GenerateDeliveryPlan sort_slice db ctx robotID cap p =
           (Inr plan,
            p\<lparr>statuses := set_status (map OrderID (Orders plan)) ''delivering'' (statuses p),
              issued := issued p @ [(map OrderID (Orders plan), ''delivering'')]\<rparr>)"
  using assms
  by (simp add: GenerateDeliveryPlan_def WithTimeout_def ExecTx_def plan_tx_def UpdateStatuses_def)

lemma generate_update_fails:
  assumes "GetShippingOrders db = Inr orders"
      and "selectOrdersForDeliveryOptimized sort_slice ctx orders robotID cap = Inr plan"
      and "Orders plan \<noteq> []" "exec_update db = Some (e, touched)"
  shows "GenerateDeliveryPlan sort_slice db ctx robotID cap p =
           (Inl e, p\<lparr>issued := issued p @ [(map OrderID (Orders plan), ''delivering'')]\<rparr>)"
  using assms
  by (simp add: GenerateDeliveryPlan_def WithTimeout_def ExecTx_def plan_tx_def UpdateStatuses_def)

lemma generate_cases:
  obtains (fetch) e where "GetShippingOrders db = Inl e"
      "GenerateDeliveryPlan sort_slice db ctx robotID cap p = (Inl e, p)"
    | (select) orders e where "GetShippingOrders db = Inr orders"
      "selectOrdersForDeliveryOptimized sort_slice ctx orders robotID cap = Inl e"
      "GenerateDeliveryPlan sort_slice db ctx robotID cap p = (Inl e, p)"
    | (unchanged) orders plan where "GetShippingOrders db = Inr orders"
      "selectOrdersForDeliveryOptimized sort_slice ctx orders robotID cap = Inr plan"
      "Orders plan = []"
      "GenerateDeliveryPlan sort_slice db ctx robotID cap p = (Inr plan, p)"
    | (update) orders plan e touched where "GetShippingOrders db = Inr orders"
      "selectOrdersForDeliveryOptimized sort_slice ctx orders robotID cap = Inr plan"
      "Orders plan \<noteq> []" "exec_update db = Some (e, touched)"
      "GenerateDeliveryPlan sort_slice db ctx robotID cap p =
         (Inl e, p\<lparr>issued := issued p @ [(map OrderID (Orders plan), ''delivering'')]\<rparr>)"
    | (commit) orders plan where "GetShippingOrders db = Inr orders"
      "selectOrdersForDeliveryOptimized sort_slice ctx orders robotID cap = Inr plan"
      "Orders plan \<noteq> []" "exec_update db = None"
      "GenerateDeliveryPlan sort_slice db ctx robotID cap p =
         (Inr plan,
          p\<lparr>statuses := set_status (map OrderID (Orders plan)) ''delivering'' (statuses p),
            issued := issued p @ [(map OrderID (Orders plan), ''delivering'')]\<rparr>)"
proof (cases "GetShippingOrders db")
  case (Inl e)
  show ?thesis by (rule fetch[OF Inl generate_fetch_fails[OF Inl]])
next
  case fetched: (Inr orders)
  show ?thesis
  proof (cases "selectOrdersForDeliveryOptimized sort_slice ctx orders robotID cap")
    case (Inl e)
    show ?thesis by (rule select[OF fetched Inl generate_selection_fails[OF fetched Inl]])
  next
    case selected: (Inr plan)
    show ?thesis
    proof (cases "Orders plan = []")
      case True
      show ?thesis
        by (rule unchanged[OF fetched selected True generate_no_orders[OF fetched selected True]])
    next
      case False
      show ?thesis
      proof (cases "exec_update db")
        case succeeds: None
        show ?thesis
          by (rule commit[OF fetched selected False succeeds
                generate_commits[OF fetched selected False succeeds]])
      next
        case (Some a)
        then obtain e touched where failed: "exec_update db = Some (e, touched)"
          by (cases a) simp
        show ?thesis
          by (rule update[OF fetched selected False failed
                generate_update_fails[OF fetched selected False failed]])
      qed
    qed
  qed
qed

section \<open>The sorted copy\<close>

text \<open>
  The loop appends orders in the order of the sorted copy, whatever the sums do. For
  orders of weights other than 0 the closure compares numbers, is a transitive ordering,
  and any two copies that \<open>sort.Slice\<close> may leave show the same sequence of quotients.
\<close>

lemma greedy_loop_subseq:
  "\<exists>sel'. fst (greedy_loop cap xs (sel, tw, tv)) = sel @ sel' \<and> subseq sel' xs"
proof (induction xs arbitrary: sel tw tv)
  case Nil
  show ?case by simp
next
  case (Cons x xs)
  show ?case
  proof (cases "wrap64 (tw + Weight x) \<le> cap")
    case True
    obtain sel' where "fst (greedy_loop cap xs (sel @ [x], wrap64 (tw + Weight x), wrap64 (tv + Value x)))
        = (sel @ [x]) @ sel'" "subseq sel' xs"
      using Cons.IH by blast
    then have "fst (greedy_loop cap (x # xs) (sel, tw, tv)) = sel @ (x # sel') \<and> subseq (x # sel') (x # xs)"
      using True by simp
    then show ?thesis by blast
  next
    case False
    obtain sel' where "fst (greedy_loop cap xs (sel, tw, tv)) = sel @ sel'" "subseq sel' xs"
      using Cons.IH by blast
    then have "fst (greedy_loop cap (x # xs) (sel, tw, tv)) = sel @ sel' \<and> subseq sel' (x # xs)"
      using False by (auto intro: list_emb_Cons)
    then show ?thesis by blast
  qed
qed

lemma selectOrdersGreedy_subseq:
  "subseq (Orders (selectOrdersGreedy sort_slice orders robotID cap)) (sort_slice orders)"
proof (cases "orders = []")
  case True
  then show ?thesis by (simp add: selectOrdersGreedy_def)
next
  case False
  obtain sel' where s: "fst (greedy_loop cap (sort_slice orders) ([], 0, 0)) = [] @ sel'"
      "subseq sel' (sort_slice orders)"
    using greedy_loop_subseq by blast
  have "Orders (selectOrdersGreedy sort_slice orders robotID cap) =
          fst (greedy_loop cap (sort_slice orders) ([], 0, 0))"
    using False by (simp add: selectOrdersGreedy_def split: prod.split)
  with s show ?thesis by simp
qed

lemma ratio_less_quotient:
  "Weight x \<noteq> 0 \<Longrightarrow> Weight y \<noteq> 0 \<Longrightarrow>
     ratio_less fdiv x y \<longleftrightarrow> order_quotient fdiv y < order_quotient fdiv x"
  by (simp add: ratio_less_def ratio_def float_div_def float_less_def order_quotient_def)

lemma ratio_less_transitive:
  assumes "\<forall>x \<in> set xs. Weight x \<noteq> 0"
  shows "transitive_ordering (ratio_less fdiv) xs"
  unfolding transitive_ordering_def using assms
  by (auto simp: ratio_less_quotient)

lemma sort_Slice_descending:
  assumes "\<forall>x \<in> set xs. Weight x \<noteq> 0" "sort_Slice (ratio_less fdiv) xs ys"
  shows "map (order_quotient fdiv) ys = rev (sort (map (order_quotient fdiv) xs))"
proof -
  let ?f = "order_quotient fdiv"
  from assms have m: "mset ys = mset xs"
    and s: "sorted_wrt (\<lambda>a b. \<not> ratio_less fdiv b a) ys"
    by (simp_all add: sort_Slice_def ratio_less_transitive)
  have sub: "set ys = set xs" using m by (rule mset_eq_setD)
  have "sorted_wrt (\<lambda>a b. ?f b \<le> ?f a) ys"
  proof (rule sorted_wrt_mono_rel[OF _ s])
    fix a b assume "a \<in> set ys" "b \<in> set ys" "\<not> ratio_less fdiv b a"
    then show "?f b \<le> ?f a"
      using assms(1) sub by (simp add: ratio_less_quotient not_less)
  qed
  then have "sorted (rev (map ?f ys))"
    by (simp add: sorted_wrt_rev sorted_wrt_map)
  moreover have "mset (rev (map ?f ys)) = mset (map ?f xs)"
    using m by simp
  ultimately have "sort (map ?f xs) = rev (map ?f ys)"
    by (rule properties_for_sort[rotated])
  then show ?thesis by simp
qed

lemma sort_SliceI:
  "mset ys = mset xs \<Longrightarrow> sorted_wrt (\<lambda>a b. \<not> less_fn b a) ys \<Longrightarrow> sort_Slice less_fn xs ys"
  by (simp add: sort_Slice_def)

lemma spec_sorted_admissible:
  assumes "\<forall>x \<in> set xs. Weight x \<noteq> 0"
  shows "sort_Slice (ratio_less fdiv) xs (spec_sorted fdiv xs)"
proof (rule sort_SliceI)
  let ?f = "order_quotient fdiv"
  show "mset (spec_sorted fdiv xs) = mset xs" by (simp add: spec_sorted_def)
  have "sorted (map ?f (sort_key ?f (rev xs)))" by simp
  then have "sorted_wrt (\<lambda>a b. ?f a \<le> ?f b) (sort_key ?f (rev xs))"
    by (simp add: sorted_wrt_map)
  then have d: "sorted_wrt (\<lambda>a b. ?f b \<le> ?f a) (spec_sorted fdiv xs)"
    by (simp add: sorted_wrt_rev spec_sorted_def)
  show "sorted_wrt (\<lambda>a b. \<not> ratio_less fdiv b a) (spec_sorted fdiv xs)"
  proof (rule sorted_wrt_mono_rel[OF _ d])
    fix a b assume "a \<in> set (spec_sorted fdiv xs)" "b \<in> set (spec_sorted fdiv xs)" "?f b \<le> ?f a"
    then show "\<not> ratio_less fdiv b a"
      using assms by (simp add: ratio_less_quotient not_less spec_sorted_def)
  qed
qed

lemma spec_sorted_keeps_ties: "keeps_ties (order_quotient fdiv) xs (spec_sorted fdiv xs)"
  by (simp add: keeps_ties_def spec_sorted_def rev_filter[symmetric] sort_key_stable)

lemma sort_Slice_unique:
  assumes "\<forall>x \<in> set xs. Weight x \<noteq> 0"
      and "sort_Slice (ratio_less fdiv) xs ys" "sort_Slice (ratio_less fdiv) xs zs"
      and "distinct (map (order_quotient fdiv) xs)"
  shows "ys = zs"
proof -
  have "map (order_quotient fdiv) ys = map (order_quotient fdiv) zs"
    using assms(1,2,3) by (simp add: sort_Slice_descending)
  moreover have "set ys = set xs" "set zs = set xs"
    using assms(2,3) by (auto simp: sort_Slice_def dest: mset_eq_setD)
  moreover have "inj_on (order_quotient fdiv) (set xs)"
    using assms(4) by (simp add: distinct_map)
  ultimately show ?thesis
    by (simp add: inj_on_map_eq_map)
qed

section \<open>The claims\<close>

lemmas eval_defs = spec_orders_def mk_order_def background_def expired_def

lemmas sort_defs = ratio_less_def ratio_def float_div_def float_less_def order_quotient_def
  exact_ratio_def tie_orders_def tie_sorted_def mixed_orders_def mixed_sorted_def mk_order_def
  leaves_def

subsection \<open>C1: the exact plan is optimal\<close>

text \<open>
  C1, as amended. For at most 500 orders with positive weights and values whose values
  sum to at most \<open>2^63 - 1\<close>, and a capacity between 0 and 5000: a plan returned by
  \<open>selectOrdersForDeliveryOptimized\<close> has a total value (\<open>dp[capacity]\<close>) equal to the
  sum of the values of the orders the traceback recovers; these orders are a subset of
  the given ones of total weight at most the capacity; and no subset within the capacity
  has a larger value. A plan is returned whenever the context is not done at a
  checkpoint.
\<close>

theorem exact_plan_is_optimal:
  assumes "length orders \<le> 500" "0 \<le> cap" "cap \<le> 5000"
      and "\<forall>x \<in> set orders. 0 < Weight x \<and> 0 < Value x"
      and "sum_list (map Value orders) \<le> max_int64"
  shows "(\<forall>plan. selectOrdersForDeliveryOptimized sort_slice ctx orders robotID cap = Inr plan \<longrightarrow>
            TotalValue plan = sum_list (map Value (Orders plan)) \<and>
            subseq (rev (Orders plan)) orders \<and>
            sum_list (map Weight (Orders plan)) \<le> cap \<and>
            (\<forall>ys. subseq ys orders \<and> sum_list (map Weight ys) \<le> cap \<longrightarrow>
                  sum_list (map Value ys) \<le> TotalValue plan)) \<and>
         ((\<forall>i. i mod 50 = 0 \<longrightarrow> ctx i = None) \<longrightarrow>
            (\<exists>plan. selectOrdersForDeliveryOptimized sort_slice ctx orders robotID cap = Inr plan))"
proof (cases "orders = []")
  case True
  then show ?thesis
    by (auto simp: selectOrdersForDeliveryOptimized_def assms(2) dest: list_emb_Nil2)
next
  case False
  have nn: "\<forall>x \<in> set orders. 0 \<le> Weight x" using assms(4) by auto
  have pv: "\<forall>x \<in> set orders. 0 < Weight x \<and> 0 \<le> Value x" using assms(4) by auto
  have bound: "sum_list (map Value orders) \<le> 9223372036854775807"
    using assms(5) by (simp add: max_int64_def)
  have dp: "selectOrdersForDeliveryOptimized sort_slice ctx orders robotID cap =
              (case cancelled_at ctx 1 (length orders) of
                 Some e \<Rightarrow> Inl (CtxError e)
               | None \<Rightarrow> Inr (dp_plan orders robotID cap))"
    using False assms(1,2,3) nn selectOrdersDP_closed[of cap orders ctx robotID]
    by (simp add: selectOrdersForDeliveryOptimized_def)
  let ?p = "dp_plan orders robotID cap"
  have val: "TotalValue ?p = knap (rev orders) cap"
    and sel: "sum_list (map Value (Orders ?p)) = knap (rev orders) cap"
    using dp_plan_strong[OF assms(2) pv bound] by simp_all
  have wt: "sum_list (map Weight (Orders ?p)) \<le> cap"
    and sub: "subseq (rev (Orders ?p)) orders"
    using dp_plan_weak[OF assms(2) nn] by simp_all
  have best: "sum_list (map Value ys) \<le> TotalValue ?p"
    if "subseq ys orders" "sum_list (map Weight ys) \<le> cap" for ys
    using that nn val by (simp add: knap_upper_subseq)
  have first: "\<forall>plan. selectOrdersForDeliveryOptimized sort_slice ctx orders robotID cap = Inr plan \<longrightarrow>
            TotalValue plan = sum_list (map Value (Orders plan)) \<and>
            subseq (rev (Orders plan)) orders \<and>
            sum_list (map Weight (Orders plan)) \<le> cap \<and>
            (\<forall>ys. subseq ys orders \<and> sum_list (map Weight ys) \<le> cap \<longrightarrow>
                  sum_list (map Value ys) \<le> TotalValue plan)"
  proof (intro allI impI)
    fix plan
    assume "selectOrdersForDeliveryOptimized sort_slice ctx orders robotID cap = Inr plan"
    with dp have "plan = ?p" by (simp split: option.splits)
    with val sel wt sub best show "TotalValue plan = sum_list (map Value (Orders plan)) \<and>
            subseq (rev (Orders plan)) orders \<and>
            sum_list (map Weight (Orders plan)) \<le> cap \<and>
            (\<forall>ys. subseq ys orders \<and> sum_list (map Weight ys) \<le> cap \<longrightarrow>
                  sum_list (map Value ys) \<le> TotalValue plan)"
      by simp
  qed
  have second: "(\<forall>i. i mod 50 = 0 \<longrightarrow> ctx i = None) \<longrightarrow>
            (\<exists>plan. selectOrdersForDeliveryOptimized sort_slice ctx orders robotID cap = Inr plan)"
    using dp by (simp add: not_cancelled)
  from first second show ?thesis by (rule conjI)
qed

theorem exact_plan_is_optimal_witness:
  "selectOrdersForDeliveryOptimized id background spec_orders ''robot'' 5 =
     Inr \<lparr>RobotID = ''robot'', TotalWeight = 5, TotalValue = 7,
          Orders = [mk_order 2 3 4, mk_order 1 2 3]\<rparr> \<and>
   sum_list (map Value [mk_order 2 3 4, mk_order 1 2 3]) = 7 \<and>
   sum_list (map Value [mk_order 1 2 3, mk_order 2 3 4]) \<le> 7 \<and>
   sum_list (map Value [mk_order 4 5 6]) \<le> 7"
proof -
  let ?plan = "\<lparr>RobotID = ''robot'', TotalWeight = 5, TotalValue = 7,
          Orders = [mk_order 2 3 4, mk_order 1 2 3]\<rparr>"
  have run: "selectOrdersForDeliveryOptimized id background spec_orders ''robot'' 5 = Inr ?plan"
    unfolding eval_defs by code_simp
  have h1: "length spec_orders \<le> 500" by (simp add: spec_orders_def)
  have h4: "\<forall>x \<in> set spec_orders. 0 < Weight x \<and> 0 < Value x"
    by (simp add: spec_orders_def mk_order_def)
  have h5: "sum_list (map Value spec_orders) \<le> max_int64"
    by (simp add: spec_orders_def mk_order_def max_int64_def)
  have s1: "subseq [mk_order 1 2 3, mk_order 2 3 4] spec_orders"
    by (simp add: spec_orders_def)
  have s2: "subseq [mk_order 4 5 6] spec_orders"
    by (simp add: spec_orders_def mk_order_def)
  from exact_plan_is_optimal[OF h1 _ _ h4 h5, of 5 id background "''robot''"] run
  have "TotalValue ?plan = sum_list (map Value (Orders ?plan))"
    and "\<forall>ys. subseq ys spec_orders \<and> sum_list (map Weight ys) \<le> 5 \<longrightarrow>
               sum_list (map Value ys) \<le> TotalValue ?plan"
    by simp_all
  with s1 s2 run show ?thesis by (simp add: mk_order_def)
qed

text \<open>
  The claim as stated, without the bound on the values: the sum \<open>dp[1] + (2^63 - 1)\<close>
  wraps around, the second order is never taken at budget 2, and the plan of value 1
  is beaten by the second order alone.
\<close>

theorem exact_plan_overflow_counterexample:
  "selectOrdersForDeliveryOptimized id background
     [mk_order 1 1 1, mk_order 2 1 9223372036854775807] ''robot'' 2 =
     Inr \<lparr>RobotID = ''robot'', TotalWeight = 1, TotalValue = 1, Orders = [mk_order 1 1 1]\<rparr> \<and>
   subseq [mk_order 2 1 9223372036854775807] [mk_order 1 1 1, mk_order 2 1 9223372036854775807] \<and>
   sum_list (map Weight [mk_order 2 1 9223372036854775807]) \<le> 2 \<and>
   1 < sum_list (map Value [mk_order 2 1 9223372036854775807])"
proof -
  have "selectOrdersForDeliveryOptimized id background
     [mk_order 1 1 1, mk_order 2 1 9223372036854775807] ''robot'' 2 =
     Inr \<lparr>RobotID = ''robot'', TotalWeight = 1, TotalValue = 1, Orders = [mk_order 1 1 1]\<rparr>"
    unfolding eval_defs by code_simp
  then show ?thesis by (simp add: mk_order_def)
qed

subsection \<open>C2: the plan's weight\<close>

text \<open>
  C2, as amended. For a capacity of at least 0 and orders with positive weights and
  values, where on the greedy path (more than 500 orders, or a capacity above 5000) the
  weights sum to at most \<open>2^63 - 1\<close>: a plan returned by
  \<open>selectOrdersForDeliveryOptimized\<close> has a \<open>TotalWeight\<close> equal to the sum of the
  weights of its orders, which are among the given ones, and at most the capacity. The
  greedy path always returns a plan, the exact one whenever the context is not done at
  a checkpoint.
\<close>

theorem plan_weight_within_capacity:
  assumes "0 \<le> cap" "\<forall>x \<in> set orders. 0 < Weight x \<and> 0 < Value x"
      and "mset (sort_slice orders) = mset orders"
      and "500 < length orders \<or> 5000 < cap \<longrightarrow> sum_list (map Weight orders) \<le> max_int64"
  shows "(\<forall>plan. selectOrdersForDeliveryOptimized sort_slice ctx orders robotID cap = Inr plan \<longrightarrow>
            TotalWeight plan = sum_list (map Weight (Orders plan)) \<and>
            TotalWeight plan \<le> cap \<and>
            mset (Orders plan) \<subseteq># mset orders) \<and>
         (500 < length orders \<or> 5000 < cap \<or> (\<forall>i. i mod 50 = 0 \<longrightarrow> ctx i = None) \<longrightarrow>
            (\<exists>plan. selectOrdersForDeliveryOptimized sort_slice ctx orders robotID cap = Inr plan))"
proof -
  have nn: "\<forall>x \<in> set orders. 0 \<le> Weight x" using assms(2) by auto
  consider (empty) "orders = []"
    | (greedy) "orders \<noteq> []" "500 < length orders \<or> 5000 < cap"
    | (exact) "orders \<noteq> []" "\<not> (500 < length orders \<or> 5000 < cap)"
    by blast
  then show ?thesis
  proof cases
    case empty
    then show ?thesis using assms(1) by (simp add: selectOrdersForDeliveryOptimized_def)
  next
    case greedy
    let ?g = "selectOrdersGreedy sort_slice orders robotID cap"
    have run: "selectOrdersForDeliveryOptimized sort_slice ctx orders robotID cap = Inr ?g"
      using greedy by (simp add: selectOrdersForDeliveryOptimized_def)
    have bound: "sum_list (map Weight orders) \<le> 9223372036854775807"
      using greedy(2) assms(4) by (simp add: max_int64_def)
    have sel: "Orders ?g = picked cap (sort_slice orders) 0"
      and tw: "TotalWeight ?g = sum_list (map Weight (picked cap (sort_slice orders) 0))"
      using selectOrdersGreedy_weight[of sort_slice orders, OF assms(3) nn bound] by simp_all
    have "0 + sum_list (map Weight (picked cap (sort_slice orders) 0)) \<le> cap"
      using assms(1) by (rule picked_weight)
    with run sel tw picked_sub_mset[of sort_slice orders, OF assms(3)] show ?thesis by simp
  next
    case exact
    have dp: "selectOrdersForDeliveryOptimized sort_slice ctx orders robotID cap =
                (case cancelled_at ctx 1 (length orders) of
                   Some e \<Rightarrow> Inl (CtxError e)
                 | None \<Rightarrow> Inr (dp_plan orders robotID cap))"
      using exact assms(1) nn selectOrdersDP_closed[of cap orders ctx robotID]
      by (simp add: selectOrdersForDeliveryOptimized_def)
    let ?p = "dp_plan orders robotID cap"
    have "mset (rev (Orders ?p)) \<subseteq># mset orders"
      using dp_plan_weak(3)[OF assms(1) nn] by (rule subseq_mset_le)
    then have props: "TotalWeight ?p = sum_list (map Weight (Orders ?p)) \<and> TotalWeight ?p \<le> cap \<and>
        mset (Orders ?p) \<subseteq># mset orders"
      using dp_plan_weak(1,2)[OF assms(1) nn, of robotID] by simp
    show ?thesis
    proof (cases "cancelled_at ctx 1 (length orders)")
      case None
      with dp props show ?thesis by simp
    next
      case (Some e)
      have "\<not> (\<forall>i. i mod 50 = 0 \<longrightarrow> ctx i = None)"
      proof
        assume "\<forall>i. i mod 50 = 0 \<longrightarrow> ctx i = None"
        then have "cancelled_at ctx 1 (length orders) = None" by (rule not_cancelled)
        with Some show False by simp
      qed
      with Some dp exact show ?thesis by simp
    qed
  qed
qed

theorem plan_weight_within_capacity_witness:
  "selectOrdersForDeliveryOptimized id background spec_orders ''robot'' 5 =
     Inr \<lparr>RobotID = ''robot'', TotalWeight = 5, TotalValue = 7,
          Orders = [mk_order 2 3 4, mk_order 1 2 3]\<rparr> \<and>
   sum_list (map Weight [mk_order 2 3 4, mk_order 1 2 3]) = 5 \<and>
   selectOrdersForDeliveryOptimized id background spec_orders ''robot'' 5007 =
     Inr \<lparr>RobotID = ''robot'', TotalWeight = 14, TotalValue = 18, Orders = spec_orders\<rparr> \<and>
   sum_list (map Weight spec_orders) = 14"
proof -
  let ?p = "\<lparr>RobotID = ''robot'', TotalWeight = 5, TotalValue = 7,
          Orders = [mk_order 2 3 4, mk_order 1 2 3]\<rparr>"
  let ?g = "\<lparr>RobotID = ''robot'', TotalWeight = 14, TotalValue = 18, Orders = spec_orders\<rparr>"
  have run1: "selectOrdersForDeliveryOptimized id background spec_orders ''robot'' 5 = Inr ?p"
    unfolding eval_defs by code_simp
  have run2: "selectOrdersForDeliveryOptimized id background spec_orders ''robot'' 5007 = Inr ?g"
    unfolding eval_defs by code_simp
  have h2: "\<forall>x \<in> set spec_orders. 0 < Weight x \<and> 0 < Value x"
    by (simp add: spec_orders_def mk_order_def)
  have h3: "mset (id spec_orders) = mset spec_orders" by simp
  have h4: "sum_list (map Weight spec_orders) \<le> max_int64"
    by (simp add: spec_orders_def mk_order_def max_int64_def)
  from plan_weight_within_capacity[of 5 spec_orders id background "''robot''", OF _ h2 h3] h4 run1
  have a: "TotalWeight ?p = sum_list (map Weight (Orders ?p))" by simp
  from plan_weight_within_capacity[of 5007 spec_orders id background "''robot''", OF _ h2 h3] h4 run2
  have b: "TotalWeight ?g = sum_list (map Weight (Orders ?g))" by simp
  from a b run1 run2 show ?thesis by simp
qed

text \<open>
  The claim as stated, without the bound on the weights: two orders of weight \<open>2^62\<close>
  and a capacity of \<open>2^62\<close>. The running weight wraps around to \<open>- 2^63\<close>, the test
  against the capacity passes, and both orders are loaded: their weights sum to \<open>2^63\<close>,
  above the capacity and different from \<open>TotalWeight\<close>.
\<close>

theorem plan_weight_overflow_counterexample:
  "selectOrdersForDeliveryOptimized id background
     [mk_order 1 4611686018427387904 1, mk_order 2 4611686018427387904 1] ''robot''
     4611686018427387904 =
     Inr \<lparr>RobotID = ''robot'', TotalWeight = - 9223372036854775808, TotalValue = 2,
          Orders = [mk_order 1 4611686018427387904 1, mk_order 2 4611686018427387904 1]\<rparr> \<and>
   sum_list (map Weight [mk_order 1 4611686018427387904 1, mk_order 2 4611686018427387904 1]) =
     9223372036854775808 \<and>
   (4611686018427387904 :: int) < 9223372036854775808"
proof -
  have "selectOrdersForDeliveryOptimized id background
     [mk_order 1 4611686018427387904 1, mk_order 2 4611686018427387904 1] ''robot''
     4611686018427387904 =
     Inr \<lparr>RobotID = ''robot'', TotalWeight = - 9223372036854775808, TotalValue = 2,
          Orders = [mk_order 1 4611686018427387904 1, mk_order 2 4611686018427387904 1]\<rparr>"
    unfolding eval_defs by code_simp
  then show ?thesis by (simp add: mk_order_def)
qed

subsection \<open>C4: strategy selection\<close>

text \<open>
  C4. For a non-empty order list, \<open>selectOrdersForDeliveryOptimized\<close> runs the greedy
  approximation exactly when there are more than 500 orders or the capacity is above
  5000, and the exact dynamic program otherwise; its result is the result of the
  strategy it runs, on the same input.
\<close>

theorem strategy_selection:
  assumes "orders \<noteq> []"
  shows "selectOrdersForDeliveryOptimized sort_slice ctx orders robotID cap =
           (if 500 < length orders \<or> 5000 < cap
            then Inr (selectOrdersGreedy sort_slice orders robotID cap)
            else selectOrdersDP ctx orders robotID cap)"
  using assms by (simp add: selectOrdersForDeliveryOptimized_def)

theorem strategy_selection_witness:
  "selectOrdersForDeliveryOptimized id background spec_orders ''robot'' 5 =
     selectOrdersDP background spec_orders ''robot'' 5 \<and>
   selectOrdersForDeliveryOptimized id background spec_orders ''robot'' 5001 =
     Inr (selectOrdersGreedy id spec_orders ''robot'' 5001)"
proof -
  have ne: "spec_orders \<noteq> []" by (simp add: spec_orders_def)
  show ?thesis
    using strategy_selection[OF ne, of id background "''robot''" 5]
          strategy_selection[OF ne, of id background "''robot''" 5001]
    by (simp add: spec_orders_def)
qed

subsection \<open>C5: one status update, all or nothing\<close>

text \<open>
  C5. When \<open>GenerateDeliveryPlan\<close> succeeds with a non-empty plan, the plan is the
  one selected from the fetched orders, one \<open>UPDATE\<close> has been sent, with exactly the
  identifiers of the plan's orders and the status \<open>delivering\<close>, and these orders have
  changed status together; with an empty plan the pool is untouched. When the fetch,
  the selection or the update fails, \<open>GenerateDeliveryPlan\<close> returns that failure and
  no plan, and every status is what it was before the call.
\<close>

theorem plan_commit_all_or_nothing:
  "(\<forall>plan p'. GenerateDeliveryPlan sort_slice db ctx robotID cap p = (Inr plan, p') \<and>
              Orders plan \<noteq> [] \<longrightarrow>
      issued p' = issued p @ [(map OrderID (Orders plan), ''delivering'')] \<and>
      statuses p' = set_status (map OrderID (Orders plan)) ''delivering'' (statuses p) \<and>
      (\<exists>orders. GetShippingOrders db = Inr orders \<and>
         selectOrdersForDeliveryOptimized sort_slice ctx orders robotID cap = Inr plan)) \<and>
   (\<forall>plan p'. GenerateDeliveryPlan sort_slice db ctx robotID cap p = (Inr plan, p') \<and>
              Orders plan = [] \<longrightarrow> p' = p) \<and>
   (\<forall>e p'. GenerateDeliveryPlan sort_slice db ctx robotID cap p = (Inl e, p') \<longrightarrow>
      statuses p' = statuses p) \<and>
   (\<forall>e. GetShippingOrders db = Inl e \<longrightarrow>
      fst (GenerateDeliveryPlan sort_slice db ctx robotID cap p) = Inl e) \<and>
   (\<forall>orders e. GetShippingOrders db = Inr orders \<and>
      selectOrdersForDeliveryOptimized sort_slice ctx orders robotID cap = Inl e \<longrightarrow>
      fst (GenerateDeliveryPlan sort_slice db ctx robotID cap p) = Inl e) \<and>
   (\<forall>orders plan e touched. GetShippingOrders db = Inr orders \<and>
      selectOrdersForDeliveryOptimized sort_slice ctx orders robotID cap = Inr plan \<and>
      Orders plan \<noteq> [] \<and> exec_update db = Some (e, touched) \<longrightarrow>
      fst (GenerateDeliveryPlan sort_slice db ctx robotID cap p) = Inl e)"
proof (cases rule: generate_cases[of db sort_slice ctx robotID cap p])
  case (fetch e)
  then show ?thesis by simp
next
  case (select orders e)
  then show ?thesis by simp
next
  case (unchanged orders plan)
  then show ?thesis by auto
next
  case (update orders plan e touched)
  then show ?thesis by auto
next
  case (commit orders plan)
  then show ?thesis by auto
qed

theorem plan_commit_all_or_nothing_witness:
  "issued (snd (GenerateDeliveryPlan id (db_with spec_orders) background ''robot'' 5 shipping_pool)) =
     [([2, 1], ''delivering'')] \<and>
   statuses (snd (GenerateDeliveryPlan id (db_with spec_orders) background ''robot'' 5 shipping_pool)) 2 =
     Some ''delivering'' \<and>
   statuses (snd (GenerateDeliveryPlan id (db_with spec_orders) background ''robot'' 5 shipping_pool)) 3 =
     Some ''shipping'' \<and>
   fst (GenerateDeliveryPlan id (db_failing_update spec_orders) background ''robot'' 5 shipping_pool) =
     Inl (StorageError ''deadlock'') \<and>
   statuses (snd (GenerateDeliveryPlan id (db_failing_update spec_orders) background ''robot'' 5
     shipping_pool)) 2 = Some ''shipping''"
proof -
  let ?plan = "\<lparr>RobotID = ''robot'', TotalWeight = 5, TotalValue = 7,
          Orders = [mk_order 2 3 4, mk_order 1 2 3]\<rparr>"
  have run: "selectOrdersForDeliveryOptimized id background spec_orders ''robot'' 5 = Inr ?plan"
    unfolding eval_defs by code_simp
  obtain p1 where ok: "GenerateDeliveryPlan id (db_with spec_orders) background ''robot'' 5
      shipping_pool = (Inr ?plan, p1)"
    using run
    by (simp add: GenerateDeliveryPlan_def WithTimeout_def ExecTx_def plan_tx_def UpdateStatuses_def
          GetShippingOrders_def db_with_def mk_order_def)
  obtain p2 where bad: "GenerateDeliveryPlan id (db_failing_update spec_orders) background ''robot'' 5
      shipping_pool = (Inl (StorageError ''deadlock''), p2)"
    using run
    by (simp add: GenerateDeliveryPlan_def WithTimeout_def ExecTx_def plan_tx_def UpdateStatuses_def
          GetShippingOrders_def db_failing_update_def mk_order_def)
  have ne: "Orders ?plan \<noteq> []" by simp
  from plan_commit_all_or_nothing[of id "db_with spec_orders" background "''robot''" 5 shipping_pool]
  have "GenerateDeliveryPlan id (db_with spec_orders) background ''robot'' 5 shipping_pool = (Inr ?plan, p1) \<and>
        Orders ?plan \<noteq> [] \<longrightarrow>
          issued p1 = issued shipping_pool @ [(map OrderID (Orders ?plan), ''delivering'')] \<and>
          statuses p1 = set_status (map OrderID (Orders ?plan)) ''delivering'' (statuses shipping_pool)"
    by blast
  with ok ne have a: "issued p1 = issued shipping_pool @ [(map OrderID (Orders ?plan), ''delivering'')]"
    and b: "statuses p1 = set_status (map OrderID (Orders ?plan)) ''delivering'' (statuses shipping_pool)"
    by blast+
  from plan_commit_all_or_nothing[of id "db_failing_update spec_orders" background "''robot''" 5
         shipping_pool]
  have "GenerateDeliveryPlan id (db_failing_update spec_orders) background ''robot'' 5 shipping_pool =
          (Inl (StorageError ''deadlock''), p2) \<longrightarrow> statuses p2 = statuses shipping_pool"
    by blast
  with bad have c: "statuses p2 = statuses shipping_pool" by blast
  have s1: "snd (GenerateDeliveryPlan id (db_with spec_orders) background ''robot'' 5
      shipping_pool) = p1"
    by (simp add: ok)
  have s2: "snd (GenerateDeliveryPlan id (db_failing_update spec_orders) background ''robot'' 5
      shipping_pool) = p2"
    and s3: "fst (GenerateDeliveryPlan id (db_failing_update spec_orders) background ''robot'' 5
      shipping_pool) = Inl (StorageError ''deadlock'')"
    by (simp_all add: bad)
  show ?thesis
    unfolding s1 s2 s3 a b c
    by (simp add: shipping_pool_def set_status_def mk_order_def)
qed

subsection \<open>C6: nothing to load\<close>

text \<open>
  C6, as amended. When the fetch returns no orders, \<open>GenerateDeliveryPlan\<close> returns the
  empty plan with total weight 0 and total value 0 and sends no \<open>UPDATE\<close>. When the
  capacity is 0 and all weights are positive (and Go \<open>int\<close>s, so at most \<open>2^63 - 1\<close>),
  it sends no \<open>UPDATE\<close> either, and it returns that empty plan or a cancellation
  failure; it returns the plan when there are fewer than 50 or more than 500 orders, or
  when the context is not done at a checkpoint.
\<close>

theorem empty_or_zero_capacity_plan:
  "(GetShippingOrders db = Inr [] \<longrightarrow>
      GenerateDeliveryPlan sort_slice db ctx robotID cap p =
        (Inr \<lparr>RobotID = robotID, TotalWeight = 0, TotalValue = 0, Orders = []\<rparr>, p)) \<and>
   (GetShippingOrders db = Inr orders \<and>
    (\<forall>x \<in> set orders. 0 < Weight x \<and> Weight x \<le> max_int64) \<and>
    mset (sort_slice orders) = mset orders \<longrightarrow>
      (GenerateDeliveryPlan sort_slice db ctx robotID 0 p =
         (Inr \<lparr>RobotID = robotID, TotalWeight = 0, TotalValue = 0, Orders = []\<rparr>, p) \<or>
       (\<exists>e. GenerateDeliveryPlan sort_slice db ctx robotID 0 p = (Inl (CtxError e), p))) \<and>
      (length orders < 50 \<or> 500 < length orders \<or> (\<forall>i. i mod 50 = 0 \<longrightarrow> ctx i = None) \<longrightarrow>
         GenerateDeliveryPlan sort_slice db ctx robotID 0 p =
           (Inr \<lparr>RobotID = robotID, TotalWeight = 0, TotalValue = 0, Orders = []\<rparr>, p)))"
proof (intro conjI impI)
  let ?empty = "\<lparr>RobotID = robotID, TotalWeight = 0, TotalValue = 0, Orders = []\<rparr>"
  assume "GetShippingOrders db = Inr []"
  then show "GenerateDeliveryPlan sort_slice db ctx robotID cap p = (Inr ?empty, p)"
    by (intro generate_no_orders[where orders = "[]"])
       (simp_all add: selectOrdersForDeliveryOptimized_def)
next
  let ?empty = "\<lparr>RobotID = robotID, TotalWeight = 0, TotalValue = 0, Orders = []\<rparr>"
  assume a: "GetShippingOrders db = Inr orders \<and>
    (\<forall>x \<in> set orders. 0 < Weight x \<and> Weight x \<le> max_int64) \<and>
    mset (sort_slice orders) = mset orders"
  then have fetch: "GetShippingOrders db = Inr orders"
    and sel: "selectOrdersForDeliveryOptimized sort_slice ctx orders robotID 0 =
           (if 0 < length orders \<and> length orders \<le> 500 then
              (case cancelled_at ctx 1 (length orders) of
                 Some e \<Rightarrow> Inl (CtxError e)
               | None \<Rightarrow> Inr ?empty)
            else Inr ?empty)"
    using select_zero_capacity[of orders sort_slice ctx robotID] by simp_all
  show "GenerateDeliveryPlan sort_slice db ctx robotID 0 p = (Inr ?empty, p) \<or>
       (\<exists>e. GenerateDeliveryPlan sort_slice db ctx robotID 0 p = (Inl (CtxError e), p))"
  proof (cases "selectOrdersForDeliveryOptimized sort_slice ctx orders robotID 0")
    case (Inl err)
    then obtain e where "err = CtxError e"
      using sel by (auto split: if_splits option.splits)
    with Inl fetch show ?thesis by (simp add: generate_selection_fails)
  next
    case (Inr plan)
    then have "plan = ?empty" using sel by (auto split: if_splits option.splits)
    with Inr fetch show ?thesis by (simp add: generate_no_orders)
  qed
  assume b: "length orders < 50 \<or> 500 < length orders \<or> (\<forall>i. i mod 50 = 0 \<longrightarrow> ctx i = None)"
  have "cancelled_at ctx 1 (length orders) = None" if "length orders \<le> 500"
  proof (cases "length orders < 50")
    case True
    then show ?thesis by (intro cancelled_at_short) simp_all
  next
    case False
    with b that have "\<forall>i. i mod 50 = 0 \<longrightarrow> ctx i = None" by simp
    then show ?thesis by (rule not_cancelled)
  qed
  then have "selectOrdersForDeliveryOptimized sort_slice ctx orders robotID 0 = Inr ?empty"
    using sel by simp
  with fetch show "GenerateDeliveryPlan sort_slice db ctx robotID 0 p = (Inr ?empty, p)"
    by (simp add: generate_no_orders)
qed

theorem empty_or_zero_capacity_plan_witness:
  "GenerateDeliveryPlan id (db_with []) background ''robot'' 5 shipping_pool =
     (Inr \<lparr>RobotID = ''robot'', TotalWeight = 0, TotalValue = 0, Orders = []\<rparr>, shipping_pool) \<and>
   GenerateDeliveryPlan id (db_with spec_orders) expired ''robot'' 0 shipping_pool =
     (Inr \<lparr>RobotID = ''robot'', TotalWeight = 0, TotalValue = 0, Orders = []\<rparr>, shipping_pool)"
proof -
  have f1: "GetShippingOrders (db_with []) = Inr []"
    by (simp add: GetShippingOrders_def db_with_def)
  have f2: "GetShippingOrders (db_with spec_orders) = Inr spec_orders"
    by (simp add: GetShippingOrders_def db_with_def)
  have pos: "\<forall>x \<in> set spec_orders. 0 < Weight x \<and> Weight x \<le> max_int64"
    by (simp add: spec_orders_def mk_order_def max_int64_def)
  have len: "length spec_orders < 50" by (simp add: spec_orders_def)
  from empty_or_zero_capacity_plan[of "db_with []" id background "''robot''" 5 shipping_pool] f1
  have a: "GenerateDeliveryPlan id (db_with []) background ''robot'' 5 shipping_pool =
     (Inr \<lparr>RobotID = ''robot'', TotalWeight = 0, TotalValue = 0, Orders = []\<rparr>, shipping_pool)"
    by simp
  from empty_or_zero_capacity_plan[of "db_with spec_orders" id expired "''robot''" 5 shipping_pool
         spec_orders] f2 pos len
  have b: "GenerateDeliveryPlan id (db_with spec_orders) expired ''robot'' 0 shipping_pool =
     (Inr \<lparr>RobotID = ''robot'', TotalWeight = 0, TotalValue = 0, Orders = []\<rparr>, shipping_pool)"
    by simp
  from a b show ?thesis by simp
qed

text \<open>
  The claim as stated: with 50 orders of weight 1, a capacity of 0 and a deadline that
  has passed, the call returns the failure of the context and no plan.
\<close>

theorem zero_capacity_cancelled_counterexample:
  "GenerateDeliveryPlan id (db_with (unit_orders 50)) expired ''robot'' 0 shipping_pool =
     (Inl (CtxError DeadlineExceeded), shipping_pool)"
proof -
  have nn: "\<forall>x \<in> set (unit_orders 50). 0 \<le> Weight x"
    by (auto simp: unit_orders_def mk_order_def)
  have len: "length (unit_orders 50) = 50" by (simp add: unit_orders_def)
  have "cancelled_at expired 1 (length (unit_orders 50)) = Some DeadlineExceeded"
    using len by (intro cancelled_at_50) (simp_all add: expired_def)
  moreover have "selectOrdersDP expired (unit_orders 50) ''robot'' 0 =
              (case cancelled_at expired 1 (length (unit_orders 50)) of
                 Some e \<Rightarrow> Inl (CtxError e)
               | None \<Rightarrow> Inr (dp_plan (unit_orders 50) ''robot'' 0))"
    using nn by (intro selectOrdersDP_closed) simp_all
  ultimately have "selectOrdersForDeliveryOptimized id expired (unit_orders 50) ''robot'' 0 =
      Inl (CtxError DeadlineExceeded)"
    using len by (simp add: selectOrdersForDeliveryOptimized_def)
  moreover have "GetShippingOrders (db_with (unit_orders 50)) = Inr (unit_orders 50)"
    by (simp add: GetShippingOrders_def db_with_def)
  ultimately show ?thesis by (simp add: generate_selection_fails)
qed

subsection \<open>C7: cancellation\<close>

text \<open>
  C7, as amended. For a capacity from 0 to 5000 and orders of non-negative weight: when
  there are at least 50 orders and the context is done at the checkpoint of order 50,
  the dynamic program stops there with the error of the context, and
  \<open>GenerateDeliveryPlan\<close>, reaching it with at most 500 orders and a capacity of at most
  5000, returns that failure and leaves the pool as it was. With fewer than 50 orders
  no checkpoint is reached and the dynamic program returns a plan.
\<close>

theorem dp_checkpoint_cancels:
  assumes "0 \<le> cap" "cap \<le> 5000" "\<forall>x \<in> set orders. 0 \<le> Weight x"
  shows "(50 \<le> length orders \<and> ctx 50 = Some e \<longrightarrow>
            selectOrdersDP ctx orders robotID cap = Inl (CtxError e) \<and>
            (length orders \<le> 500 \<and> cap \<le> 5000 \<and> GetShippingOrders db = Inr orders \<longrightarrow>
               GenerateDeliveryPlan sort_slice db ctx robotID cap p = (Inl (CtxError e), p))) \<and>
         (length orders < 50 \<longrightarrow>
            (\<exists>plan. selectOrdersDP ctx orders robotID cap = Inr plan))"
proof -
  have capb: "cap \<le> 35184372088831" using assms(2) by simp
  have dp: "selectOrdersDP ctx orders robotID cap =
              (case cancelled_at ctx 1 (length orders) of
                 Some e \<Rightarrow> Inl (CtxError e)
               | None \<Rightarrow> Inr (dp_plan orders robotID cap))"
    using assms(1) capb assms(3) by (rule selectOrdersDP_closed)
  have long: "selectOrdersDP ctx orders robotID cap = Inl (CtxError e)"
    if "50 \<le> length orders" "ctx 50 = Some e"
  proof -
    have "cancelled_at ctx 1 (length orders) = Some e"
      using that by (intro cancelled_at_50) simp_all
    with dp show ?thesis by simp
  qed
  have gen: "GenerateDeliveryPlan sort_slice db ctx robotID cap p = (Inl (CtxError e), p)"
    if "50 \<le> length orders" "ctx 50 = Some e" "length orders \<le> 500" "cap \<le> 5000"
       "GetShippingOrders db = Inr orders"
  proof -
    have "selectOrdersForDeliveryOptimized sort_slice ctx orders robotID cap = Inl (CtxError e)"
      using that long by (auto simp: selectOrdersForDeliveryOptimized_def)
    then show ?thesis
      using that(5) by (simp add: GenerateDeliveryPlan_def WithTimeout_def ExecTx_def plan_tx_def)
  qed
  have short: "\<exists>plan. selectOrdersDP ctx orders robotID cap = Inr plan" if "length orders < 50"
  proof -
    have "cancelled_at ctx 1 (length orders) = None"
      using that by (intro cancelled_at_short) simp_all
    with dp show ?thesis by simp
  qed
  from long gen short show ?thesis by blast
qed

theorem dp_checkpoint_cancels_witness:
  "selectOrdersDP expired (unit_orders 50) ''robot'' 3 = Inl (CtxError DeadlineExceeded) \<and>
   GenerateDeliveryPlan id (db_with (unit_orders 50)) expired ''robot'' 3 shipping_pool =
     (Inl (CtxError DeadlineExceeded), shipping_pool) \<and>
   selectOrdersDP expired [mk_order 1 2 3] ''robot'' 3 =
     Inr \<lparr>RobotID = ''robot'', TotalWeight = 2, TotalValue = 3, Orders = [mk_order 1 2 3]\<rparr>"
proof -
  have h3: "\<forall>x \<in> set (unit_orders 50). 0 \<le> Weight x"
    by (auto simp: unit_orders_def mk_order_def)
  have len: "length (unit_orders 50) = 50" by (simp add: unit_orders_def)
  have ex: "expired 50 = Some DeadlineExceeded" by (simp add: expired_def)
  have fetch: "GetShippingOrders (db_with (unit_orders 50)) = Inr (unit_orders 50)"
    by (simp add: GetShippingOrders_def db_with_def)
  have run: "selectOrdersDP expired [mk_order 1 2 3] ''robot'' 3 =
     Inr \<lparr>RobotID = ''robot'', TotalWeight = 2, TotalValue = 3, Orders = [mk_order 1 2 3]\<rparr>"
    unfolding eval_defs by code_simp
  from dp_checkpoint_cancels[of 3 "unit_orders 50" expired DeadlineExceeded "''robot''"
         "db_with (unit_orders 50)" id shipping_pool, OF _ _ h3] len ex fetch run
  show ?thesis by (simp add: max_int64_def)
qed

text \<open>
  The claim as stated: with 49 orders and a deadline that has passed before the call,
  the dynamic program never asks the context and returns a plan. With a capacity of
  \<open>- 2\<close> it panics in \<open>make\<close> before it reaches a checkpoint.
\<close>

theorem dp_ignores_cancellation_counterexample:
  "selectOrdersDP expired (unit_orders 49) ''robot'' 1 =
     Inr \<lparr>RobotID = ''robot'', TotalWeight = 1, TotalValue = 1, Orders = [mk_order 1 1 1]\<rparr> \<and>
   selectOrdersDP expired (unit_orders 50) ''robot'' (- 2) = Inl PanicMakeSliceLen"
proof -
  have a: "selectOrdersDP expired (unit_orders 49) ''robot'' 1 =
     Inr \<lparr>RobotID = ''robot'', TotalWeight = 1, TotalValue = 1, Orders = [mk_order 1 1 1]\<rparr>"
    unfolding eval_defs unit_orders_def by code_simp
  have b: "selectOrdersDP expired (unit_orders 50) ''robot'' (- 2) = Inl PanicMakeSliceLen"
    by (simp add: selectOrdersDP_def make_slice_def wrap64_def)
  from a b show ?thesis by simp
qed

subsection \<open>C8: the order of the sorted copy\<close>

text \<open>
  C8, as amended. For orders of weights other than 0 and a sorted copy that \<open>sort.Slice\<close>
  may leave under its documentation: the copy is in descending order of the quotient
  of value and weight; the orders of the plan are a subsequence of the copy, so that
  orders are considered for inclusion in its order; and where the quotients are
  pairwise different, the copy is the one the specification describes and the plan is
  determined by the orders. Nothing is said of the order among orders of equal
  quotients.
\<close>

theorem greedy_sorts_by_ratio:
  assumes "\<forall>x \<in> set orders. Weight x \<noteq> 0"
      and "sort_Slice (ratio_less fdiv) orders (sort_slice orders)"
  shows "map (order_quotient fdiv) (sort_slice orders) = rev (sort (map (order_quotient fdiv) orders)) \<and>
         subseq (Orders (selectOrdersGreedy sort_slice orders robotID cap)) (sort_slice orders) \<and>
         (distinct (map (order_quotient fdiv) orders) \<longrightarrow>
            sort_slice orders = spec_sorted fdiv orders \<and>
            selectOrdersGreedy sort_slice orders robotID cap =
              selectOrdersGreedy (spec_sorted fdiv) orders robotID cap)"
proof -
  have a: "map (order_quotient fdiv) (sort_slice orders) = rev (sort (map (order_quotient fdiv) orders))"
    using assms by (rule sort_Slice_descending)
  have b: "subseq (Orders (selectOrdersGreedy sort_slice orders robotID cap)) (sort_slice orders)"
    by (rule selectOrdersGreedy_subseq)
  have c: "sort_slice orders = spec_sorted fdiv orders
      \<and> selectOrdersGreedy sort_slice orders robotID cap =
              selectOrdersGreedy (spec_sorted fdiv) orders robotID cap"
    if d: "distinct (map (order_quotient fdiv) orders)"
  proof -
    have "sort_slice orders = spec_sorted fdiv orders"
      using assms(1,2) spec_sorted_admissible[OF assms(1)] d by (rule sort_Slice_unique)
    then show ?thesis by (simp add: selectOrdersGreedy_def)
  qed
  from a b c show ?thesis by blast
qed

text \<open>
  The theorem at \<open>mixed_orders\<close>, whose quotients differ, and at \<open>tie_orders\<close>.
\<close>

theorem greedy_sorts_by_ratio_witness:
  "map (order_quotient exact_ratio) mixed_sorted = [3, 1, 1 / 2] \<and>
   spec_sorted exact_ratio mixed_orders = mixed_sorted \<and>
   selectOrdersGreedy (spec_sorted exact_ratio) mixed_orders ''robot'' 2 =
     \<lparr>RobotID = ''robot'', TotalWeight = 2, TotalValue = 4,
      Orders = [mk_order 2 1 3, mk_order 3 1 1]\<rparr> \<and>
   map (order_quotient exact_ratio) tie_sorted = [2, 2, 2, 2, 2, 2, 2, 2, 2, 2, 2, 2, 1]"
proof -
  have h1: "\<forall>x \<in> set mixed_orders. Weight x \<noteq> 0"
    by (simp add: mixed_orders_def mk_order_def)
  have h2: "sort_Slice (ratio_less exact_ratio) mixed_orders ((leaves mixed_sorted) mixed_orders)"
    unfolding sort_Slice_def transitive_ordering_def sort_defs by simp
  have h3: "distinct (map (order_quotient exact_ratio) mixed_orders)"
    unfolding sort_defs by simp
  have g: "selectOrdersGreedy (leaves mixed_sorted) mixed_orders ''robot'' 2 =
     \<lparr>RobotID = ''robot'', TotalWeight = 2, TotalValue = 4,
      Orders = [mk_order 2 1 3, mk_order 3 1 1]\<rparr>"
    unfolding sort_defs by code_simp
  have k1: "\<forall>x \<in> set tie_orders. Weight x \<noteq> 0"
    by (simp add: tie_orders_def mk_order_def)
  have k2: "sort_Slice (ratio_less exact_ratio) tie_orders ((leaves tie_sorted) tie_orders)"
    by (rule sort_SliceI) (simp_all add: sort_defs)
  have s: "rev (sort (map (order_quotient exact_ratio) tie_orders)) = [2, 2, 2, 2, 2, 2, 2, 2, 2, 2, 2, 2, 1]"
    unfolding sort_defs by simp
  have s2: "rev (sort (map (order_quotient exact_ratio) mixed_orders)) = [3, 1, 1 / 2]"
    unfolding sort_defs by simp
  from greedy_sorts_by_ratio[of mixed_orders exact_ratio "leaves mixed_sorted" "''robot''" 2, OF h1 h2]
       greedy_sorts_by_ratio[of tie_orders exact_ratio "leaves tie_sorted" "''robot''" 1, OF k1 k2]
       h3 g s s2
  show ?thesis by (simp add: leaves_def)
qed

text \<open>
  The claim as stated, with the stable tie-break: \<open>sort.Slice\<close> leaves \<open>tie_sorted\<close> for
  \<open>tie_orders\<close>, where order 7 has come before the orders 2 to 6 of the same quotient.
  With the capacity 1 the plan holds order 7; after a stable sort it would hold order 2.
\<close>

theorem greedy_sort_not_stable_counterexample:
  "sort_Slice (ratio_less exact_ratio) tie_orders tie_sorted \<and>
   \<not> keeps_ties (order_quotient exact_ratio) tie_orders tie_sorted \<and>
   Orders (selectOrdersGreedy (leaves tie_sorted) tie_orders ''robot'' 1) = [mk_order 7 1 2] \<and>
   Orders (selectOrdersGreedy (spec_sorted exact_ratio) tie_orders ''robot'' 1) = [mk_order 2 1 2]"
proof -
  have a: "sort_Slice (ratio_less exact_ratio) tie_orders tie_sorted"
    by (rule sort_SliceI) (simp_all add: sort_defs)
  have b: "\<not> keeps_ties (order_quotient exact_ratio) tie_orders tie_sorted"
    unfolding keeps_ties_def sort_defs by simp
  have c: "Orders (selectOrdersGreedy (leaves tie_sorted) tie_orders ''robot'' 1) = [mk_order 7 1 2]"
    unfolding sort_defs by code_simp
  have d: "Orders (selectOrdersGreedy (spec_sorted exact_ratio) tie_orders ''robot'' 1) = [mk_order 2 1 2]"
    unfolding sort_defs spec_sorted_def by code_simp
  from a b c d show ?thesis by simp
qed

subsection \<open>C9: greedy against exact\<close>

text \<open>
  C9, as amended. For orders with positive weights and values, whose weights and whose
  values each sum to at most \<open>2^63 - 1\<close>, and a capacity of at least 0: the total value
  of the greedy plan is at most the total value of a plan the dynamic program returns on
  the same input. The dynamic program returns one when the capacity is at most 5000 and
  the context is not done at a checkpoint.
\<close>

theorem greedy_value_le_exact:
  assumes "0 \<le> cap" "cap \<le> max_int64" "\<forall>x \<in> set orders. 0 < Weight x \<and> 0 < Value x"
      and "mset (sort_slice orders) = mset orders"
      and "sum_list (map Weight orders) \<le> max_int64"
      and "sum_list (map Value orders) \<le> max_int64"
  shows "(\<forall>plan. selectOrdersDP ctx orders robotID cap = Inr plan \<longrightarrow>
            TotalValue (selectOrdersGreedy sort_slice orders robotID cap) \<le> TotalValue plan) \<and>
         (cap \<le> 5000 \<and> (\<forall>i. i mod 50 = 0 \<longrightarrow> ctx i = None) \<longrightarrow>
            (\<exists>plan. selectOrdersDP ctx orders robotID cap = Inr plan))"
proof (cases "cap \<le> 35184372088831")
  case False
  then have "selectOrdersDP ctx orders robotID cap = Inl PanicMakeSliceLen"
    using assms(2) by (intro selectOrdersDP_make_panics) simp_all
  with False show ?thesis by simp
next
  case capb: True
  have nn: "\<forall>x \<in> set orders. 0 \<le> Weight x" using assms(3) by auto
  have nnv: "\<forall>x \<in> set orders. 0 \<le> Weight x \<and> 0 \<le> Value x" using assms(3) by auto
  have pv: "\<forall>x \<in> set orders. 0 < Weight x \<and> 0 \<le> Value x" using assms(3) by auto
  have bw: "sum_list (map Weight orders) \<le> 9223372036854775807"
    using assms(5) by (simp add: max_int64_def)
  have bv: "sum_list (map Value orders) \<le> 9223372036854775807"
    using assms(6) by (simp add: max_int64_def)
  have dp: "selectOrdersDP ctx orders robotID cap =
              (case cancelled_at ctx 1 (length orders) of
                 Some e \<Rightarrow> Inl (CtxError e)
               | None \<Rightarrow> Inr (dp_plan orders robotID cap))"
    using assms(1) capb nn by (rule selectOrdersDP_closed)
  let ?sel = "picked cap (sort_slice orders) 0"
  have gv: "TotalValue (selectOrdersGreedy sort_slice orders robotID cap) = sum_list (map Value ?sel)"
    using selectOrdersGreedy_value[of sort_slice orders, OF assms(4) nnv bw bv] .
  have "0 + sum_list (map Weight ?sel) \<le> cap" using assms(1) by (rule picked_weight)
  then have fits: "sum_list (map Weight ?sel) \<le> cap" by simp
  have "mset ?sel \<subseteq># mset (rev orders)"
    using picked_sub_mset[of sort_slice orders, OF assms(4)] by simp
  then have "sum_list (map Value ?sel) \<le> knap (rev orders) cap"
    using nn fits by (intro knap_upper) simp_all
  also have "\<dots> = TotalValue (dp_plan orders robotID cap)"
    using dp_plan_strong(1)[OF assms(1) pv bv] by simp
  finally have le: "TotalValue (selectOrdersGreedy sort_slice orders robotID cap)
                      \<le> TotalValue (dp_plan orders robotID cap)"
    using gv by simp
  have first: "\<forall>plan. selectOrdersDP ctx orders robotID cap = Inr plan \<longrightarrow>
            TotalValue (selectOrdersGreedy sort_slice orders robotID cap) \<le> TotalValue plan"
    using dp le by (auto split: option.splits)
  have second: "cap \<le> 5000 \<and> (\<forall>i. i mod 50 = 0 \<longrightarrow> ctx i = None) \<longrightarrow>
            (\<exists>plan. selectOrdersDP ctx orders robotID cap = Inr plan)"
    using dp by (simp add: not_cancelled)
  from first second show ?thesis by (rule conjI)
qed

theorem greedy_value_le_exact_witness:
  "TotalValue (selectOrdersGreedy id dense_orders ''robot'' 6) = 6 \<and>
   selectOrdersDP background dense_orders ''robot'' 6 =
     Inr \<lparr>RobotID = ''robot'', TotalWeight = 6, TotalValue = 8,
          Orders = [mk_order 3 3 4, mk_order 2 3 4]\<rparr> \<and>
   TotalValue (selectOrdersGreedy id dense_orders ''robot'' 6) \<le> 8"
proof -
  let ?p = "\<lparr>RobotID = ''robot'', TotalWeight = 6, TotalValue = 8,
          Orders = [mk_order 3 3 4, mk_order 2 3 4]\<rparr>"
  have g: "TotalValue (selectOrdersGreedy id dense_orders ''robot'' 6) = 6"
    unfolding eval_defs dense_orders_def by code_simp
  have run: "selectOrdersDP background dense_orders ''robot'' 6 = Inr ?p"
    unfolding eval_defs dense_orders_def by code_simp
  have h3: "\<forall>x \<in> set dense_orders. 0 < Weight x \<and> 0 < Value x"
    by (simp add: dense_orders_def mk_order_def)
  have h4: "mset (id dense_orders) = mset dense_orders" by simp
  have h5: "sum_list (map Weight dense_orders) \<le> max_int64"
    by (simp add: dense_orders_def mk_order_def max_int64_def)
  have h6: "sum_list (map Value dense_orders) \<le> max_int64"
    by (simp add: dense_orders_def mk_order_def max_int64_def)
  from greedy_value_le_exact[of 6 dense_orders id background "''robot''", OF _ _ h3 h4 h5 h6] run
  have "TotalValue (selectOrdersGreedy id dense_orders ''robot'' 6) \<le> TotalValue ?p"
    by (simp add: max_int64_def)
  with g run show ?thesis by simp
qed

text \<open>
  The claim as stated, without the bounds: the values of \<open>wrapping_orders\<close> sum to
  \<open>2^64 + 2^62 + 2\<close>. The greedy total wraps around to \<open>2^62 + 2\<close>; in the dynamic
  program, at every budget above 2, a sum with one of the three large values wraps to
  a negative number, and the plan keeps the first order alone, of value \<open>2^62\<close>. The
  weights of \<open>heavy_orders\<close> sum to \<open>2^63\<close>: at the capacity 10 the running weight of the
  greedy loop wraps around, it loads both orders for a value of 6, and the dynamic
  program loads the one that fits, of value 5.
\<close>

theorem greedy_exceeds_exact_counterexample:
  "TotalValue (selectOrdersGreedy id wrapping_orders ''robot'' 7) = 4611686018427387906 \<and>
   selectOrdersDP background wrapping_orders ''robot'' 7 =
     Inr \<lparr>RobotID = ''robot'', TotalWeight = 1, TotalValue = 4611686018427387904,
          Orders = [mk_order 1 1 4611686018427387904]\<rparr> \<and>
   (4611686018427387904 :: int) < 4611686018427387906 \<and>
   TotalValue (selectOrdersGreedy id heavy_orders ''robot'' 10) = 6 \<and>
   selectOrdersDP background heavy_orders ''robot'' 10 =
     Inr \<lparr>RobotID = ''robot'', TotalWeight = 1, TotalValue = 5, Orders = [mk_order 1 1 5]\<rparr>"
proof -
  have g2: "TotalValue (selectOrdersGreedy id heavy_orders ''robot'' 10) = 6"
    unfolding eval_defs heavy_orders_def by code_simp
  have run2: "selectOrdersDP background heavy_orders ''robot'' 10 =
     Inr \<lparr>RobotID = ''robot'', TotalWeight = 1, TotalValue = 5, Orders = [mk_order 1 1 5]\<rparr>"
    unfolding eval_defs heavy_orders_def by code_simp
  have g: "TotalValue (selectOrdersGreedy id wrapping_orders ''robot'' 7) = 4611686018427387906"
    unfolding eval_defs wrapping_orders_def by code_simp
  have run: "selectOrdersDP background wrapping_orders ''robot'' 7 =
     Inr \<lparr>RobotID = ''robot'', TotalWeight = 1, TotalValue = 4611686018427387904,
          Orders = [mk_order 1 1 4611686018427387904]\<rparr>"
    unfolding eval_defs wrapping_orders_def by code_simp
  from g run g2 run2 show ?thesis by simp
qed

subsection \<open>C10: array accesses\<close>

text \<open>
  C10, as amended. For orders of non-negative weight: with a capacity of at least 0
  every access of \<open>selectOrdersDP\<close> to \<open>dp\<close> and \<open>keep\<close> is in range; with a capacity
  from 0 to 5000, the capacities the function is called with, \<open>make\<close> grants the slices
  as well and the function returns a plan or the error of the context; with the
  capacity \<open>- 1\<close> and a context that is not done, the loops run through and the last
  read, \<open>dp[robotCapacity]\<close>, is out of range.
\<close>

theorem dp_accesses_in_bounds:
  assumes "\<forall>x \<in> set orders. 0 \<le> Weight x"
  shows "(0 \<le> cap \<and> cap \<le> max_int64 \<longrightarrow>
            selectOrdersDP ctx orders robotID cap \<noteq> Inl PanicIndexOutOfRange) \<and>
         (0 \<le> cap \<and> cap \<le> 5000 \<longrightarrow>
            (\<exists>plan. selectOrdersDP ctx orders robotID cap = Inr plan) \<or>
            (\<exists>e. selectOrdersDP ctx orders robotID cap = Inl (CtxError e))) \<and>
         ((\<forall>i. i mod 50 = 0 \<longrightarrow> ctx i = None) \<longrightarrow>
            selectOrdersDP ctx orders robotID (- 1) = Inl PanicIndexOutOfRange)"
proof (intro conjI impI)
  assume "0 \<le> cap \<and> cap \<le> max_int64"
  then show "selectOrdersDP ctx orders robotID cap \<noteq> Inl PanicIndexOutOfRange"
    using assms by (intro selectOrdersDP_no_index_panic) simp_all
next
  assume "0 \<le> cap \<and> cap \<le> 5000"
  then have "0 \<le> cap" "cap \<le> 35184372088831" by simp_all
  then have "selectOrdersDP ctx orders robotID cap =
              (case cancelled_at ctx 1 (length orders) of
                 Some e \<Rightarrow> Inl (CtxError e)
               | None \<Rightarrow> Inr (dp_plan orders robotID cap))"
    using assms by (rule selectOrdersDP_closed)
  then show "(\<exists>plan. selectOrdersDP ctx orders robotID cap = Inr plan) \<or>
            (\<exists>e. selectOrdersDP ctx orders robotID cap = Inl (CtxError e))"
    by (cases "cancelled_at ctx 1 (length orders)") simp_all
next
  assume "\<forall>i. i mod 50 = 0 \<longrightarrow> ctx i = None"
  then have "cancelled_at ctx 1 (length orders) = None" by (rule not_cancelled)
  then show "selectOrdersDP ctx orders robotID (- 1) = Inl PanicIndexOutOfRange"
    using selectOrdersDP_minus_one[OF assms, of ctx robotID] by simp
qed

theorem dp_accesses_in_bounds_witness:
  "selectOrdersDP background spec_orders ''robot'' 5 =
     Inr \<lparr>RobotID = ''robot'', TotalWeight = 5, TotalValue = 7,
          Orders = [mk_order 2 3 4, mk_order 1 2 3]\<rparr> \<and>
   selectOrdersDP background spec_orders ''robot'' 5 \<noteq> Inl PanicIndexOutOfRange \<and>
   selectOrdersDP background spec_orders ''robot'' 6000 \<noteq> Inl PanicIndexOutOfRange \<and>
   selectOrdersDP background spec_orders ''robot'' (- 1) = Inl PanicIndexOutOfRange"
proof -
  have h: "\<forall>x \<in> set spec_orders. 0 \<le> Weight x"
    by (simp add: spec_orders_def mk_order_def)
  have run: "selectOrdersDP background spec_orders ''robot'' 5 =
     Inr \<lparr>RobotID = ''robot'', TotalWeight = 5, TotalValue = 7,
          Orders = [mk_order 2 3 4, mk_order 1 2 3]\<rparr>"
    unfolding eval_defs by code_simp
  from dp_accesses_in_bounds[OF h, of 5 background "''robot''"]
  have small: "selectOrdersDP background spec_orders ''robot'' 5 \<noteq> Inl PanicIndexOutOfRange"
    by (simp add: max_int64_def)
  from dp_accesses_in_bounds[OF h, of 6000 background "''robot''"]
  have "selectOrdersDP background spec_orders ''robot'' 6000 \<noteq> Inl PanicIndexOutOfRange"
    and "selectOrdersDP background spec_orders ''robot'' (- 1) = Inl PanicIndexOutOfRange"
    by (simp_all add: background_def max_int64_def)
  with run small show ?thesis by simp
qed

text \<open>
  The claim as stated, for every order list and every capacity of at least 0: an order
  of weight \<open>- 1\<close> makes the first read \<open>dp[w - order.Weight]\<close> leave the slice; with
  the capacity \<open>2^63 - 2\<close> the slice \<open>dp\<close> is beyond what \<open>make\<close> grants; and with the
  capacity \<open>2^63 - 1\<close> the length \<open>robotCapacity + 1\<close> wraps around to a negative
  number.
\<close>

theorem dp_panics_counterexample:
  "selectOrdersDP background [mk_order 1 (- 1) 1] ''robot'' 0 = Inl PanicIndexOutOfRange \<and>
   selectOrdersDP background [mk_order 1 1 1] ''robot'' 9223372036854775806 = Inl PanicMakeSliceLen \<and>
   selectOrdersDP background [mk_order 1 1 1] ''robot'' 9223372036854775807 = Inl PanicMakeSliceLen"
proof -
  have a: "selectOrdersDP background [mk_order 1 (- 1) 1] ''robot'' 0 = Inl PanicIndexOutOfRange"
    unfolding eval_defs by code_simp
  have b: "selectOrdersDP background [mk_order 1 1 1] ''robot'' 9223372036854775807 = Inl PanicMakeSliceLen"
    unfolding eval_defs by code_simp
  have c: "selectOrdersDP background [mk_order 1 1 1] ''robot'' 9223372036854775806 = Inl PanicMakeSliceLen"
    by (simp add: selectOrdersDP_def make_slice_def max_alloc_def wrap64_def)
  from a b c show ?thesis by simp
qed

end
